theory Spec2Isabelle
  imports Main "HOL-Library.Sublist" "HOL-Library.AList"
begin

section \<open>The host language: values, store, and the primitives the service calls\<close>

text \<open>
  The service \<^verbatim>\<open>NgRFModelSetterService\<close> (model-setter.service.ts) reads and writes nested
  properties of an untyped object graph.  A value is a primitive or a reference into a store of
  objects; the store is a list, an address is an index into it, and allocation appends.
  Numbers are the integers and \<open>NaN\<close>.  A \<open>char\<close> stands for one code unit below 256.

  An object has a kind (ordinary, array with its elements, or built-in function), its own
  properties, and a prototype, which is \<open>Null\<close> or a reference.  The objects of the engine
  (\<^verbatim>\<open>Object.prototype\<close>, \<^verbatim>\<open>Array.prototype\<close>, the built-in functions, ...) live in the
  store like any other object, so what an object inherits is whatever its prototype chain
  holds, and a write to a built-in object is a write to the store.  An own property is a data
  property (a value, and whether it is writable) or one of the two built-in accessors: the
  \<^verbatim>\<open>__proto__\<close> accessor of \<^verbatim>\<open>Object.prototype\<close>, and the accessor of
  \<^verbatim>\<open>Function.prototype\<close> (\<^verbatim>\<open>caller\<close>, \<^verbatim>\<open>arguments\<close>) whose getter and setter throw.

  Outside the model: accessors and functions defined by the user, symbol-keyed properties,
  objects that are frozen or not extensible, and index keys on prototypes (a hole of a sparse
  array reads as \<open>Undefined\<close> and is stored as such).  Of the built-in functions only the ones
  the service calls are followed, on the receivers they are made for: \<^verbatim>\<open>slice\<close> of arrays and
  of strings, \<^verbatim>\<open>push\<close> of arrays.  Any other call completes with the error \<open>Unmodelled\<close>.
\<close>

datatype jsval = Undefined | Null | Bool bool | Num int | NaN | Str string | Ref nat

datatype builtin = ArrayConstructor | ArraySlice | ArrayPush | StringSlice | OtherBuiltin

datatype slot = Data jsval bool | ProtoAccessor | Thrower

datatype kind = Obj | Arr "jsval list" | Fn builtin

datatype jsobj = Object (kind_of: kind) (props_of: "(string \<times> slot) list") (proto_of: jsval)

type_synonym heap = "jsobj list"

datatype error = TypeError | RangeError | Unmodelled

type_synonym 'a res = "(error + 'a) \<times> heap"

text \<open>
  What the functions take from the engine.  The prototypes of the objects the program creates
  or converts to: of \<^verbatim>\<open>{}\<close>, of \<^verbatim>\<open>[]\<close>, and of the wrappers of strings, numbers and
  booleans.  And \<open>toLength\<close>: assigning to \<^verbatim>\<open>length\<close> of an array coerces the value to a
  number; for primitives other than strings the coercion is written out below, for a string or
  an object it is the engine's \<^verbatim>\<open>ToNumber\<close> (a floating-point parse, \<^verbatim>\<open>ToPrimitive\<close>),
  taken as given: the new length, or the error that the assignment raises.
\<close>

record host =
  toLength :: "heap \<Rightarrow> jsval \<Rightarrow> error + nat"
  objectPrototype :: nat
  arrayPrototype :: nat
  stringPrototype :: nat
  numberPrototype :: nat
  booleanPrototype :: nat

fun truthy :: "jsval \<Rightarrow> bool" where
  "truthy Undefined = False"
| "truthy Null = False"
| "truthy (Bool b) = b"
| "truthy (Num n) = (n \<noteq> 0)"
| "truthy NaN = False"
| "truthy (Str s) = (s \<noteq> [])"
| "truthy (Ref a) = True"

text \<open>
  The object at an address.  Allocation only hands out addresses inside the store; an address
  outside it reads as an object without properties or prototype, and a write through it
  changes nothing.
\<close>

definition deref :: "heap \<Rightarrow> nat \<Rightarrow> jsobj" where
  "deref h a = (if a < length h then h ! a else Object Obj [] Null)"

subsection \<open>Strings: digits, \<^verbatim>\<open>parseInt\<close>, \<^verbatim>\<open>replace\<close>, \<^verbatim>\<open>split\<close>\<close>

definition is_digit :: "char \<Rightarrow> bool" where
  "is_digit c = (48 \<le> (of_char c :: nat) \<and> (of_char c :: nat) \<le> 57)"

definition decimal :: "string \<Rightarrow> nat" where
  "decimal ds = foldl (\<lambda>n c. 10 * n + ((of_char c :: nat) - 48)) 0 ds"

text \<open>White space as \<^verbatim>\<open>parseInt\<close> skips it: TAB, LF, VT, FF, CR, SP and NBSP.\<close>

definition is_space :: "char \<Rightarrow> bool" where
  "is_space c = ((of_char c :: nat) \<in> {9, 10, 11, 12, 13, 32, 160})"

text \<open>
  \<^verbatim>\<open>parseInt(key, 10)\<close>: leading white space, an optional sign, then the longest run of
  decimal digits; \<open>None\<close> is \<^verbatim>\<open>NaN\<close> (no digit).  The service only asks whether the result
  is \<^verbatim>\<open>NaN\<close>, so the magnitude is kept exact rather than rounded to a double.
\<close>

definition parseInt :: "string \<Rightarrow> int option" where
  "parseInt s =
     (let t = dropWhile is_space s;
          neg = (t \<noteq> [] \<and> hd t = CHR ''-'');
          u = (if t \<noteq> [] \<and> (hd t = CHR ''-'' \<or> hd t = CHR ''+'') then tl t else t);
          ds = takeWhile is_digit u
      in if ds = [] then None
         else Some (if neg then - int (decimal ds) else int (decimal ds)))"

text \<open>
  An array index is a canonical numeric string below \<open>2^32 - 1 = 4294967295\<close>; every other key of an
  array names an ordinary property.
\<close>

definition array_index :: "string \<Rightarrow> nat option" where
  "array_index k =
     (if k \<noteq> [] \<and> list_all is_digit k \<and> (k = ''0'' \<or> hd k \<noteq> CHR ''0'')
         \<and> decimal k < 4294967295
      then Some (decimal k) else None)"

text \<open>Position of the first occurrence of a pattern (\<^verbatim>\<open>indexOf\<close>).\<close>

fun index_of :: "string \<Rightarrow> string \<Rightarrow> nat option" where
  "index_of pat [] = (if pat = [] then Some 0 else None)"
| "index_of pat (c # cs) =
     (if prefix pat (c # cs) then Some 0 else map_option Suc (index_of pat cs))"

text \<open>
  The replacement text of \<^verbatim>\<open>String.prototype.replace\<close> with a string pattern: \<^verbatim>\<open>$$\<close> is a
  dollar sign, \<^verbatim>\<open>$&\<close> the match, \<^verbatim>\<open>$`\<close> the text before it, \<^verbatim>\<open>$'\<close> the text after it;
  there are no captures, so every other character stands for itself.
\<close>

fun get_substitution :: "string \<Rightarrow> string \<Rightarrow> string \<Rightarrow> string \<Rightarrow> string" where
  "get_substitution m pre post (c # d # r) =
     (if c = CHR 0x24 then
        (if d = CHR 0x24 then CHR 0x24 # get_substitution m pre post r
         else if d = CHR 0x26 then m @ get_substitution m pre post r
         else if d = CHR 0x60 then pre @ get_substitution m pre post r
         else if d = CHR 0x27 then post @ get_substitution m pre post r
         else c # get_substitution m pre post (d # r))
      else c # get_substitution m pre post (d # r))"
| "get_substitution m pre post r = r"

text \<open>\<^verbatim>\<open>s.replace(pat, rep)\<close> with a string pattern: the first occurrence only.\<close>

definition js_replace :: "string \<Rightarrow> string \<Rightarrow> string \<Rightarrow> string" where
  "js_replace s pat rep =
     (case index_of pat s of
        None \<Rightarrow> s
      | Some pos \<Rightarrow>
          (let pre = take pos s; post = drop (pos + length pat) s
           in pre @ get_substitution pat pre post rep @ post))"

text \<open>
  \<^verbatim>\<open>s.split(sep)\<close> for a non-empty separator, scanning left to right: \<open>skip\<close> counts the
  characters of a separator just matched that are still to be passed over, \<open>cur\<close> is the
  piece being read (reversed).
\<close>

fun split_from :: "string \<Rightarrow> nat \<Rightarrow> string \<Rightarrow> string \<Rightarrow> string list" where
  "split_from sep skip cur [] = [rev cur]"
| "split_from sep skip cur (c # cs) =
     (if 0 < skip then split_from sep (skip - 1) cur cs
      else if prefix sep (c # cs) then rev cur # split_from sep (length sep - 1) [] cs
      else split_from sep 0 (c # cur) cs)"

text \<open>With the empty separator \<^verbatim>\<open>split\<close> yields the code units, none for the empty string.\<close>

definition js_split :: "string \<Rightarrow> string \<Rightarrow> string list" where
  "js_split s sep = (if sep = [] then map (\<lambda>c. [c]) s else split_from sep 0 [] s)"

subsection \<open>Property access\<close>

text \<open>
  The own property of an object under a key.  An array has its \<^verbatim>\<open>length\<close> and its elements
  as own properties besides the ordinary ones.
\<close>

fun own_slot :: "jsobj \<Rightarrow> string \<Rightarrow> slot option" where
  "own_slot (Object (Arr xs) ps pr) k =
     (if k = ''length'' then Some (Data (Num (int (length xs))) True)
      else (case array_index k of
              Some i \<Rightarrow> if i < length xs then Some (Data (xs ! i) True) else None
            | None \<Rightarrow> map_of ps k))"
| "own_slot (Object kd ps pr) k = map_of ps k"

text \<open>The own properties of a string: its length and its characters, none writable.\<close>

definition string_slot :: "string \<Rightarrow> string \<Rightarrow> slot option" where
  "string_slot s k =
     (if k = ''length'' then Some (Data (Num (int (length s))) False)
      else (case array_index k of
              Some i \<Rightarrow> if i < length s then Some (Data (Str [s ! i]) False) else None
            | None \<Rightarrow> None))"

text \<open>
  The property found under a key along a prototype chain, own properties first.  The number
  bounds the objects visited; a chain has no more objects than the store, since the engine
  keeps prototype chains free of cycles.
\<close>

fun find_slot :: "heap \<Rightarrow> nat \<Rightarrow> jsval \<Rightarrow> string \<Rightarrow> slot option" where
  "find_slot h (Suc n) (Ref a) k =
     (if a < length h then
        (case own_slot (h ! a) k of
           Some s \<Rightarrow> Some s
         | None \<Rightarrow> find_slot h n (proto_of (h ! a)) k)
      else None)"
| "find_slot h n v k = None"

text \<open>
  What is inherited under a key from a prototype.  Index keys are not inherited: prototypes
  hold no elements.
\<close>

definition from_proto :: "heap \<Rightarrow> jsval \<Rightarrow> string \<Rightarrow> slot option" where
  "from_proto h p k = (if array_index k \<noteq> None then None else find_slot h (length h) p k)"

text \<open>
  The property a value has under a key: its own, or else the one its prototype chain gives.
  A primitive is looked up in its wrapper.
\<close>

fun lookup :: "host \<Rightarrow> heap \<Rightarrow> jsval \<Rightarrow> string \<Rightarrow> slot option" where
  "lookup hs h (Ref a) k =
     (case own_slot (deref h a) k of
        Some s \<Rightarrow> Some s
      | None \<Rightarrow> from_proto h (proto_of (deref h a)) k)"
| "lookup hs h (Str s) k =
     (case string_slot s k of
        Some sl \<Rightarrow> Some sl
      | None \<Rightarrow> from_proto h (Ref (stringPrototype hs)) k)"
| "lookup hs h (Num n) k = from_proto h (Ref (numberPrototype hs)) k"
| "lookup hs h NaN k = from_proto h (Ref (numberPrototype hs)) k"
| "lookup hs h (Bool b) k = from_proto h (Ref (booleanPrototype hs)) k"
| "lookup hs h v k = None"

text \<open>The prototype of a value, as the getter of \<^verbatim>\<open>__proto__\<close> returns it.\<close>

fun prototype_of :: "host \<Rightarrow> heap \<Rightarrow> jsval \<Rightarrow> jsval" where
  "prototype_of hs h (Ref a) = proto_of (deref h a)"
| "prototype_of hs h (Str s) = Ref (stringPrototype hs)"
| "prototype_of hs h (Num n) = Ref (numberPrototype hs)"
| "prototype_of hs h NaN = Ref (numberPrototype hs)"
| "prototype_of hs h (Bool b) = Ref (booleanPrototype hs)"
| "prototype_of hs h v = Undefined"

text \<open>
  \<^verbatim>\<open>obj[key]\<close>, a read: it throws on \<^verbatim>\<open>null\<close> and \<^verbatim>\<open>undefined\<close>, and where the property
  found is the throwing accessor.
\<close>

definition get_prop :: "host \<Rightarrow> heap \<Rightarrow> jsval \<Rightarrow> string \<Rightarrow> error + jsval" where
  "get_prop hs h obj k =
     (if obj = Undefined \<or> obj = Null then Inl TypeError
      else (case lookup hs h obj k of
              None \<Rightarrow> Inr Undefined
            | Some (Data x w) \<Rightarrow> Inr x
            | Some ProtoAccessor \<Rightarrow> Inr (prototype_of hs h obj)
            | Some Thrower \<Rightarrow> Inl TypeError))"

text \<open>Writing an element at or past the end extends the array, leaving holes.\<close>

definition store_at :: "nat \<Rightarrow> jsval \<Rightarrow> jsval list \<Rightarrow> jsval list" where
  "store_at i v xs =
     (if i < length xs then xs[i := v] else xs @ replicate (i - length xs) Undefined @ [v])"

definition resize :: "nat \<Rightarrow> jsval list \<Rightarrow> jsval list" where
  "resize n xs = take n xs @ replicate (n - length xs) Undefined"

fun to_length :: "host \<Rightarrow> heap \<Rightarrow> jsval \<Rightarrow> error + nat" where
  "to_length hs h Undefined = Inl RangeError"
| "to_length hs h Null = Inr 0"
| "to_length hs h (Bool b) = Inr (if b then 1 else 0)"
| "to_length hs h (Num n) = (if 0 \<le> n \<and> n < 4294967296 then Inr (nat n) else Inl RangeError)"
| "to_length hs h NaN = Inl RangeError"
| "to_length hs h v = toLength hs h v"

text \<open>
  Creating or updating the own data property of the object at an address: on an array,
  \<^verbatim>\<open>length\<close> resizes and an index stores an element.
\<close>

definition define_own :: "host \<Rightarrow> heap \<Rightarrow> nat \<Rightarrow> string \<Rightarrow> jsval \<Rightarrow> jsval res" where
  "define_own hs h a k v =
     (case deref h a of
        Object kd ps pr \<Rightarrow>
          (case kd of
             Arr xs \<Rightarrow>
               if k = ''length'' then
                 (case to_length hs h v of
                    Inl e \<Rightarrow> (Inl e, h)
                  | Inr n \<Rightarrow> (Inr v, h[a := Object (Arr (resize n xs)) ps pr]))
               else (case array_index k of
                       Some i \<Rightarrow> (Inr v, h[a := Object (Arr (store_at i v xs)) ps pr])
                     | None \<Rightarrow> (Inr v, h[a := Object kd (AList.update k (Data v True) ps) pr]))
           | _ \<Rightarrow> (Inr v, h[a := Object kd (AList.update k (Data v True) ps) pr])))"

text \<open>Whether the prototype chain that starts at a value passes through an address.\<close>

fun reaches :: "heap \<Rightarrow> nat \<Rightarrow> jsval \<Rightarrow> nat \<Rightarrow> bool" where
  "reaches h (Suc n) (Ref p) a = (p = a \<or> (p < length h \<and> reaches h n (proto_of (h ! p)) a))"
| "reaches h n v a = False"

text \<open>
  The setter of \<^verbatim>\<open>__proto__\<close>: it ignores a new prototype that is neither an object nor
  \<^verbatim>\<open>null\<close>, and a receiver that is not an object; it throws when the prototype chain would
  become cyclic, and on \<^verbatim>\<open>Object.prototype\<close>, whose prototype cannot change.
\<close>

definition set_proto :: "host \<Rightarrow> heap \<Rightarrow> jsval \<Rightarrow> jsval \<Rightarrow> jsval res" where
  "set_proto hs h obj v =
     (case obj of
        Ref a \<Rightarrow>
          if (\<forall>p. v \<noteq> Ref p) \<and> v \<noteq> Null then (Inr v, h)
          else if \<not> a < length h \<or> proto_of (h ! a) = v then (Inr v, h)
          else if a = objectPrototype hs \<or> reaches h (length h) v a then (Inl TypeError, h)
          else (Inr v, h[a := Object (kind_of (h ! a)) (props_of (h ! a)) v])
      | _ \<Rightarrow> (Inr v, h))"

text \<open>
  \<^verbatim>\<open>obj[key] = v\<close> in strict mode (class bodies are strict).  The property found along the
  prototype chain decides: a \<^verbatim>\<open>TypeError\<close> when it is not writable or the throwing accessor,
  the setter when it is the \<^verbatim>\<open>__proto__\<close> accessor; otherwise the value becomes an own
  property of the receiver, which throws when the receiver is a primitive.
\<close>

definition set_prop :: "host \<Rightarrow> heap \<Rightarrow> jsval \<Rightarrow> string \<Rightarrow> jsval \<Rightarrow> jsval res" where
  "set_prop hs h obj k v =
     (if obj = Undefined \<or> obj = Null then (Inl TypeError, h)
      else (case lookup hs h obj k of
              Some (Data x False) \<Rightarrow> (Inl TypeError, h)
            | Some Thrower \<Rightarrow> (Inl TypeError, h)
            | Some ProtoAccessor \<Rightarrow> set_proto hs h obj v
            | _ \<Rightarrow> (case obj of
                      Ref a \<Rightarrow> define_own hs h a k v
                    | _ \<Rightarrow> (Inl TypeError, h))))"

text \<open>The built-in function a value is, if it is one.\<close>

definition callable :: "heap \<Rightarrow> jsval \<Rightarrow> builtin option" where
  "callable h f =
     (case f of
        Ref a \<Rightarrow> (case kind_of (deref h a) of Fn b \<Rightarrow> Some b | _ \<Rightarrow> None)
      | _ \<Rightarrow> None)"

text \<open>
  \<^verbatim>\<open>Array.prototype.push\<close> on an array.  At the maximal length the element is stored under
  the key \<^verbatim>\<open>4294967295\<close>, which is no index, and the length update raises.
\<close>

definition array_push :: "host \<Rightarrow> heap \<Rightarrow> nat \<Rightarrow> jsval \<Rightarrow> jsval res" where
  "array_push hs h a v =
     (case deref h a of
        Object (Arr xs) ps pr \<Rightarrow>
          if length xs < 4294967295
          then (Inr (Num (int (length xs) + 1)), h[a := Object (Arr (xs @ [v])) ps pr])
          else (case set_prop hs h (Ref a) ''4294967295'' v of
                  (Inl e, h') \<Rightarrow> (Inl e, h')
                | (Inr x, h') \<Rightarrow> (Inl RangeError, h'))
      | _ \<Rightarrow> (Inl Unmodelled, h))"

text \<open>
  \<^verbatim>\<open>obj.push(v)\<close>: the property \<^verbatim>\<open>push\<close> is read, and called when it is a function.
\<close>

definition push :: "host \<Rightarrow> heap \<Rightarrow> jsval \<Rightarrow> jsval \<Rightarrow> jsval res" where
  "push hs h obj v =
     (case get_prop hs h obj ''push'' of
        Inl e \<Rightarrow> (Inl e, h)
      | Inr f \<Rightarrow>
          (case callable h f of
             None \<Rightarrow> (Inl TypeError, h)
           | Some ArrayPush \<Rightarrow> (case obj of Ref a \<Rightarrow> array_push hs h a v | _ \<Rightarrow> (Inl Unmodelled, h))
           | Some b \<Rightarrow> (Inl Unmodelled, h)))"

text \<open>
  The array that \<^verbatim>\<open>Array.prototype.slice\<close> creates for its result is made by the constructor
  of the receiver: the property \<^verbatim>\<open>constructor\<close> is read; \<^verbatim>\<open>undefined\<close>, the built-in
  \<^verbatim>\<open>Array\<close> and any object without a species give an ordinary array, any other primitive
  throws.
\<close>

definition species_check :: "host \<Rightarrow> heap \<Rightarrow> nat \<Rightarrow> error option" where
  "species_check hs h a =
     (case get_prop hs h (Ref a) ''constructor'' of
        Inl e \<Rightarrow> Some e
      | Inr Undefined \<Rightarrow> None
      | Inr (Ref c) \<Rightarrow> (if callable h (Ref c) = Some OtherBuiltin then Some Unmodelled else None)
      | Inr v \<Rightarrow> Some TypeError)"

text \<open>
  \<^verbatim>\<open>Array.prototype.slice\<close> with the argument \<open>-1\<close> on an array: it allocates the copy of the
  last element (of nothing, for an empty array) and returns it.
\<close>

definition array_slice_last :: "host \<Rightarrow> heap \<Rightarrow> nat \<Rightarrow> jsval res" where
  "array_slice_last hs h a =
     (case deref h a of
        Object (Arr xs) ps pr \<Rightarrow>
          (case species_check hs h a of
             Some e \<Rightarrow> (Inl e, h)
           | None \<Rightarrow>
               (Inr (Ref (length h)),
                h @ [Object (Arr (if xs = [] then [] else [last xs])) []
                       (Ref (arrayPrototype hs))]))
      | _ \<Rightarrow> (Inl Unmodelled, h))"

text \<open>
  \<^verbatim>\<open>obj.slice(-1)[0]\<close>: the property \<^verbatim>\<open>slice\<close> is read and called when it is a function,
  then the property \<^verbatim>\<open>0\<close> of the result is read.
\<close>

definition slice_last :: "host \<Rightarrow> heap \<Rightarrow> jsval \<Rightarrow> jsval res" where
  "slice_last hs h obj =
     (case get_prop hs h obj ''slice'' of
        Inl e \<Rightarrow> (Inl e, h)
      | Inr f \<Rightarrow>
          (case callable h f of
             None \<Rightarrow> (Inl TypeError, h)
           | Some StringSlice \<Rightarrow>
               (case obj of
                  Str s \<Rightarrow> (get_prop hs h (Str (if s = [] then [] else [last s])) ''0'', h)
                | _ \<Rightarrow> (Inl Unmodelled, h))
           | Some ArraySlice \<Rightarrow>
               (case obj of
                  Ref a \<Rightarrow>
                    (case array_slice_last hs h a of
                       (Inl e, h') \<Rightarrow> (Inl e, h')
                     | (Inr r, h') \<Rightarrow> (get_prop hs h' r ''0'', h'))
                | _ \<Rightarrow> (Inl Unmodelled, h))
           | Some b \<Rightarrow> (Inl Unmodelled, h)))"

text \<open>
  \<^verbatim>\<open>xs.reduce(f, init)\<close>: the callback receives the accumulator, the element and its index
  (the array itself is passed to the callback where it is built).  An exception ends the fold.
\<close>

fun reduce_from ::
  "(heap \<Rightarrow> jsval \<Rightarrow> string \<Rightarrow> nat \<Rightarrow> jsval res) \<Rightarrow> nat \<Rightarrow> string list \<Rightarrow> jsval \<Rightarrow> heap
     \<Rightarrow> jsval res" where
  "reduce_from f i [] acc h = (Inr acc, h)"
| "reduce_from f i (k # ks) acc h =
     (case f h acc k i of
        (Inl e, h') \<Rightarrow> (Inl e, h')
      | (Inr v, h') \<Rightarrow> reduce_from f (Suc i) ks v h')"

definition reduce ::
  "(heap \<Rightarrow> jsval \<Rightarrow> string \<Rightarrow> nat \<Rightarrow> jsval res) \<Rightarrow> string list \<Rightarrow> jsval \<Rightarrow> heap \<Rightarrow> jsval res" where
  "reduce f xs init h = reduce_from f 0 xs init h"

section \<open>The service\<close>

text \<open>
  \<^verbatim>\<open>generatePathPieces\<close>: \<^verbatim>\<open>path.replace('[', separator).replace(']', '').split(separator)\<close>.
  Only a string has \<^verbatim>\<open>replace\<close>.
\<close>

fun generatePathPieces :: "jsval \<Rightarrow> string \<Rightarrow> error + string list" where
  "generatePathPieces (Str path) separator =
     Inr (js_split (js_replace (js_replace path ''['' separator) '']'' '''') separator)"
| "generatePathPieces path separator = Inl TypeError"

text \<open>\<^verbatim>\<open>isArrayKey\<close>: \<^verbatim>\<open>key === '' || !isNaN(parseInt(key, 10))\<close>.\<close>

definition isArrayKey :: "string \<Rightarrow> bool" where
  "isArrayKey key = (key = '''' \<or> parseInt key \<noteq> None)"

text \<open>\<^verbatim>\<open>piecesReducer\<close>: \<^verbatim>\<open>key === '' ? obj.slice(-1)[0] : obj[key]\<close>.\<close>

definition piecesReducer :: "host \<Rightarrow> heap \<Rightarrow> jsval \<Rightarrow> string \<Rightarrow> nat \<Rightarrow> jsval res" where
  "piecesReducer hs h obj key i =
     (if key = '''' then slice_last hs h obj else (get_prop hs h obj key, h))"

definition default_separator :: string where
  "default_separator = ''.''"

text \<open>The body of the \<^verbatim>\<open>try\<close> block of \<^verbatim>\<open>getValue\<close>.\<close>

definition getValue_try :: "host \<Rightarrow> jsval \<Rightarrow> jsval \<Rightarrow> string \<Rightarrow> heap \<Rightarrow> jsval res" where
  "getValue_try hs path model separator h =
     (case generatePathPieces path separator of
        Inl e \<Rightarrow> (Inl e, h)
      | Inr pathPieces \<Rightarrow>
          (case reduce (piecesReducer hs) pathPieces model h of
             (Inl e, h') \<Rightarrow> (Inl e, h')
           | (Inr r, h') \<Rightarrow> (Inr (if truthy r then r else Null), h')))"

text \<open>
  \<^verbatim>\<open>getValue\<close>.  The result is \<open>Inr\<close> the value returned, \<open>Inl\<close> an exception that
  reaches the caller.
\<close>

definition getValue :: "host \<Rightarrow> jsval \<Rightarrow> jsval \<Rightarrow> string \<Rightarrow> heap \<Rightarrow> jsval res" where
  "getValue hs path model separator h =
     (if path = Null \<or> path = Undefined \<or> \<not> truthy model then (Inr Null, h)
      else (case getValue_try hs path model separator h of
              (Inl err, h') \<Rightarrow> (Inr Null, h')
            | (Inr v, h') \<Rightarrow> (Inr v, h')))"

text \<open>
  \<^verbatim>\<open>getTargetPropToSet\<close>, the callback of the write traversal.  \<open>pathPieces\<close> is the array
  being reduced (the steps without the last) and \<open>finalKey\<close> the property stashed on it.

  \<^verbatim>\<open>const nextKey = pathPieces[i + 1] || pathPieces['finalKey']\<close>: an index past the end
  reads \<^verbatim>\<open>undefined\<close>, and the empty string is falsy as well.
\<close>

definition nextKey :: "string list \<Rightarrow> jsval \<Rightarrow> nat \<Rightarrow> jsval" where
  "nextKey pathPieces finalKey i =
     (if i + 1 < length pathPieces \<and> truthy (Str (pathPieces ! (i + 1)))
      then Str (pathPieces ! (i + 1)) else finalKey)"

text \<open>
  \<^verbatim>\<open>(nextKey != null && this.isArrayKey(nextKey)) ? [] : {}\<close>; the next key is a string, or
  \<^verbatim>\<open>undefined\<close> when there is no final key.  The literals create an empty array and an
  empty object with the prototypes of the engine.
\<close>

definition newContainer :: "host \<Rightarrow> jsval \<Rightarrow> jsobj" where
  "newContainer hs nk =
     (case nk of
        Str k \<Rightarrow> if isArrayKey k then Object (Arr []) [] (Ref (arrayPrototype hs))
                 else Object Obj [] (Ref (objectPrototype hs))
      | _ \<Rightarrow> Object Obj [] (Ref (objectPrototype hs)))"

definition getTargetPropToSet ::
  "host \<Rightarrow> string list \<Rightarrow> jsval \<Rightarrow> heap \<Rightarrow> jsval \<Rightarrow> string \<Rightarrow> nat \<Rightarrow> jsval res" where
  "getTargetPropToSet hs pathPieces finalKey h obj key i =
     (case get_prop hs h obj key of
        Inl e \<Rightarrow> (Inl e, h)
      | Inr prop \<Rightarrow>
          if \<not> truthy prop then
            (case set_prop hs (h @ [newContainer hs (nextKey pathPieces finalKey i)]) obj key
                    (Ref (length h)) of
               (Inl e, h') \<Rightarrow> (Inl e, h')
             | (Inr _, h') \<Rightarrow> (Inr (Ref (length h)), h'))
          else (Inr prop, h))"

text \<open>The property key a value is converted to: \<^verbatim>\<open>pop()\<close> of an empty array is \<^verbatim>\<open>undefined\<close>.\<close>

fun to_key :: "jsval \<Rightarrow> string" where
  "to_key (Str k) = k"
| "to_key v = ''undefined''"

text \<open>The body of the \<^verbatim>\<open>try\<close> block of \<^verbatim>\<open>setValue\<close>.\<close>

definition setValue_try :: "host \<Rightarrow> jsval \<Rightarrow> jsval \<Rightarrow> jsval \<Rightarrow> string \<Rightarrow> heap \<Rightarrow> jsval res" where
  "setValue_try hs path value model separator h =
     (case generatePathPieces path separator of
        Inl e \<Rightarrow> (Inl e, h)
      | Inr pieces \<Rightarrow>
          (let finalKey = (if pieces = [] then Undefined else Str (last pieces));
               pathPieces = butlast pieces
           in (case reduce (getTargetPropToSet hs pathPieces finalKey) pathPieces model h of
                 (Inl e, h') \<Rightarrow> (Inl e, h')
               | (Inr t, h') \<Rightarrow>
                   (let targetProp = (if truthy t then t else Null)
                    in if finalKey = Str '''' then push hs h' targetProp value
                       else set_prop hs h' targetProp (to_key finalKey) value))))"

text \<open>
  \<^verbatim>\<open>setValue\<close>.  The result is the completion (\<open>Inr\<close> the value returned, \<open>Inl\<close> an
  exception that reaches the caller), the store, and what was passed to \<^verbatim>\<open>console.error\<close>.
\<close>

definition setValue ::
  "host \<Rightarrow> jsval \<Rightarrow> jsval \<Rightarrow> jsval \<Rightarrow> string \<Rightarrow> heap \<Rightarrow> (error + jsval) \<times> heap \<times> error list" where
  "setValue hs path value model separator h =
     (if \<not> (truthy path \<and> truthy model) then (Inr Null, h, [])
      else (case setValue_try hs path value model separator h of
              (Inl err, h') \<Rightarrow> (Inr Undefined, h', [err])
            | (Inr _, h') \<Rightarrow> (Inr Undefined, h', [])))"

section \<open>The directive's calls into the service\<close>

text \<open>
  \<^verbatim>\<open>NgRFModelDirective\<close> holds the path of its input (\<^verbatim>\<open>modelPath\<close>) and, when it sits
  inside a form, that form (\<^verbatim>\<open>rfForm\<close>, an optional dependency) with the model object
  \<^verbatim>\<open>rfModelData\<close>.  Reading \<^verbatim>\<open>this.rfForm.rfModelData\<close> without a form throws.
\<close>

record ngRFForm =
  rfModelData :: jsval

record ngRFModelDirective =
  modelPath :: jsval
  rfForm :: "ngRFForm option"

text \<open>\<^verbatim>\<open>getModelValue\<close>: \<^verbatim>\<open>this.modelSetter.getValue(this.modelPath, this.rfForm.rfModelData)\<close>.\<close>

definition getModelValue :: "host \<Rightarrow> ngRFModelDirective \<Rightarrow> heap \<Rightarrow> jsval res" where
  "getModelValue hs d h =
     (case rfForm d of
        None \<Rightarrow> (Inl TypeError, h)
      | Some form \<Rightarrow> getValue hs (modelPath d) (rfModelData form) default_separator h)"

text \<open>
  \<^verbatim>\<open>setModelValue\<close>:
  \<^verbatim>\<open>this.modelSetter.setValue(this.modelPath, newValue || null, this.rfForm.rfModelData)\<close>.
\<close>

definition setModelValue ::
  "host \<Rightarrow> ngRFModelDirective \<Rightarrow> jsval \<Rightarrow> heap \<Rightarrow> (error + jsval) \<times> heap \<times> error list" where
  "setModelValue hs d newValue h =
     (case rfForm d of
        None \<Rightarrow> (Inl TypeError, h, [])
      | Some form \<Rightarrow>
          setValue hs (modelPath d) (if truthy newValue then newValue else Null)
            (rfModelData form) default_separator h)"

section \<open>Notions of the specification\<close>

text \<open>
  The slot \<open>k\<close> of the container at address \<open>a\<close>: an element of an array when \<open>k\<close> is an
  index, the value of an own data property otherwise; \<open>Undefined\<close> when nothing is held there.
  The length of an array is not a slot.
\<close>

fun data_value :: "slot option \<Rightarrow> jsval" where
  "data_value (Some (Data x w)) = x"
| "data_value s = Undefined"

definition stored :: "heap \<Rightarrow> nat \<Rightarrow> string \<Rightarrow> jsval" where
  "stored h a k =
     (case kind_of (deref h a) of
        Arr xs \<Rightarrow>
          (case array_index k of
             Some i \<Rightarrow> if i < length xs then xs ! i else Undefined
           | None \<Rightarrow> data_value (map_of (props_of (deref h a)) k))
      | _ \<Rightarrow> data_value (map_of (props_of (deref h a)) k))"

definition is_array :: "heap \<Rightarrow> nat \<Rightarrow> bool" where
  "is_array h a = (case kind_of (deref h a) of Arr xs \<Rightarrow> True | _ \<Rightarrow> False)"

definition elements :: "heap \<Rightarrow> nat \<Rightarrow> jsval list" where
  "elements h a = (case kind_of (deref h a) of Arr xs \<Rightarrow> xs | _ \<Rightarrow> [])"

text \<open>
  An array whose \<^verbatim>\<open>slice\<close> is the built-in method and whose \<^verbatim>\<open>constructor\<close> is an object
  for which \<^verbatim>\<open>slice\<close> creates an ordinary array; and an array whose \<^verbatim>\<open>push\<close> is the
  built-in method.
\<close>

definition builtin_slice :: "host \<Rightarrow> heap \<Rightarrow> nat \<Rightarrow> bool" where
  "builtin_slice hs h a =
     ((case lookup hs h (Ref a) ''slice'' of
         Some (Data f w) \<Rightarrow> callable h f = Some ArraySlice
       | _ \<Rightarrow> False)
      \<and> (case lookup hs h (Ref a) ''constructor'' of
            Some (Data (Ref c) w) \<Rightarrow> c < length h \<and> kind_of (h ! c) \<noteq> Fn OtherBuiltin
          | _ \<Rightarrow> False))"

definition builtin_push :: "host \<Rightarrow> heap \<Rightarrow> nat \<Rightarrow> bool" where
  "builtin_push hs h a =
     (case lookup hs h (Ref a) ''push'' of
        Some (Data f w) \<Rightarrow> callable h f = Some ArrayPush
      | _ \<Rightarrow> False)"

text \<open>
  A sequence of steps resolves, from a value, to the value it leads to: a non-empty step is a
  key that a keyed container holds as its own data property, or an index within an indexed
  container; the empty step is the last element of a non-empty indexed container (one whose
  \<^verbatim>\<open>slice\<close> is the built-in method).  \<open>None\<close> when a step does not exist.
\<close>

fun resolve :: "host \<Rightarrow> heap \<Rightarrow> jsval \<Rightarrow> string list \<Rightarrow> jsval option" where
  "resolve hs h v [] = Some v"
| "resolve hs h (Ref a) (k # ks) =
     (if a < length h then
        (case kind_of (h ! a) of
           Arr xs \<Rightarrow>
             (if k = [] then
                (if xs = [] \<or> \<not> builtin_slice hs h a then None else resolve hs h (last xs) ks)
              else (case array_index k of
                      None \<Rightarrow> None
                    | Some i \<Rightarrow> if i < length xs then resolve hs h (xs ! i) ks else None))
         | _ \<Rightarrow>
             (if k = [] then None
              else (case map_of (props_of (h ! a)) k of
                      Some (Data x w) \<Rightarrow> resolve hs h x ks
                    | _ \<Rightarrow> None)))
      else None)"
| "resolve hs h v (k # ks) = None"

text \<open>
  Path parsing as the specification words it, for a separator of one character: the first
  \<^verbatim>\<open>[\<close> becomes the separator, the first \<^verbatim>\<open>]\<close> is removed, and the result is cut at every
  separator.
\<close>

fun replace_first :: "char \<Rightarrow> string \<Rightarrow> string \<Rightarrow> string" where
  "replace_first x r [] = []"
| "replace_first x r (c # cs) = (if c = x then r @ cs else c # replace_first x r cs)"

fun split_char :: "char \<Rightarrow> string \<Rightarrow> string list" where
  "split_char c [] = [[]]"
| "split_char c (x # xs) =
     (if x = c then [] # split_char c xs
      else (case split_char c xs of [] \<Rightarrow> [[x]] | p # ps \<Rightarrow> (x # p) # ps))"

text \<open>Joining pieces with a separator, the inverse of cutting.\<close>

fun join_char :: "char \<Rightarrow> string list \<Rightarrow> string" where
  "join_char c [] = []"
| "join_char c [p] = p"
| "join_char c (p # q # ps) = p @ c # join_char c (q # ps)"

definition parsePath :: "string \<Rightarrow> char \<Rightarrow> string list" where
  "parsePath path c = split_char c (replace_first CHR '']'' [] (replace_first CHR ''['' [c] path))"

text \<open>
  A container just created for the key \<open>k\<close> that follows: an empty object, or an empty array
  when \<open>k\<close> is an array key.
\<close>

definition empty_for :: "host \<Rightarrow> string \<Rightarrow> jsobj \<Rightarrow> bool" where
  "empty_for hs k ob =
     (ob = Object Obj [] (Ref (objectPrototype hs))
      \<or> (ob = Object (Arr []) [] (Ref (arrayPrototype hs)) \<and> isArrayKey k))"

text \<open>A value is valid in a store when it is a primitive or refers to an object of the store.\<close>

definition valid_ref :: "heap \<Rightarrow> jsval \<Rightarrow> bool" where
  "valid_ref h v = (case v of Ref a \<Rightarrow> a < length h | _ \<Rightarrow> True)"

text \<open>
  A key that begins, after white space and an optional sign (\<^verbatim>\<open>+\<close> or \<^verbatim>\<open>-\<close>), with a
  decimal digit: the strings that parse as an integer of either sign, whatever follows the
  digits.
\<close>

definition integer_prefix :: "string \<Rightarrow> bool" where
  "integer_prefix k =
     (let t = dropWhile is_space k;
          u = (if t \<noteq> [] \<and> (hd t = CHR ''-'' \<or> hd t = CHR ''+'') then tl t else t)
      in u \<noteq> [] \<and> is_digit (hd u))"

text \<open>
  The prototype chain that starts at a value ends, within the store, without passing through
  the address \<open>a\<close>.
\<close>

fun chain_avoids :: "heap \<Rightarrow> nat \<Rightarrow> jsval \<Rightarrow> nat \<Rightarrow> bool" where
  "chain_avoids h n Null a = True"
| "chain_avoids h (Suc n) (Ref p) a =
     (p < length h \<and> p \<noteq> a \<and> chain_avoids h n (proto_of (h ! p)) a)"
| "chain_avoids h n v a = False"

text \<open>The prototype chain of the object at an address ends within the store.\<close>

definition chain_ends :: "heap \<Rightarrow> nat \<Rightarrow> bool" where
  "chain_ends h a = chain_avoids h (length h) (proto_of (deref h a)) (length h)"

text \<open>
  A key under which a value can be given to an object by assignment: the object has no
  property of that name, its own or inherited, or a writable data property.
\<close>

definition assignable :: "host \<Rightarrow> heap \<Rightarrow> jsval \<Rightarrow> string \<Rightarrow> bool" where
  "assignable hs h obj k =
     (case lookup hs h obj k of
        None \<Rightarrow> True
      | Some (Data x w) \<Rightarrow> w
      | Some s \<Rightarrow> False)"

text \<open>
  A key that names nothing a new container inherits: no property of \<^verbatim>\<open>Object.prototype\<close>
  or of a prototype of it, and, for an array key, no property of \<^verbatim>\<open>Array.prototype\<close>
  either.
\<close>

definition not_inherited :: "host \<Rightarrow> heap \<Rightarrow> string \<Rightarrow> bool" where
  "not_inherited hs h k =
     (from_proto h (Ref (objectPrototype hs)) k = None
      \<and> (isArrayKey k \<longrightarrow> from_proto h (Ref (arrayPrototype hs)) k = None))"

text \<open>
  A final key that assignment treats as an ordinary slot of the target: it does not resolve to
  the \<^verbatim>\<open>__proto__\<close> accessor, and it is not the \<^verbatim>\<open>length\<close> of an array.
\<close>

definition ordinary_key :: "host \<Rightarrow> heap \<Rightarrow> jsval \<Rightarrow> string \<Rightarrow> bool" where
  "ordinary_key hs h target k =
     (lookup hs h target k \<noteq> Some ProtoAccessor
      \<and> \<not> (k = ''length'' \<and> (case target of Ref t \<Rightarrow> is_array h t | _ \<Rightarrow> False)))"

text \<open>
  The target container holds the value \<open>v\<close> as it was given, at the place the final key names:
  as the element appended to the array for the empty final key, as the value of the slot and
  of a read of the key otherwise.  \<open>ht\<close> is the store before the final write, \<open>hw\<close> after it.
\<close>

definition kept_as_given :: "host \<Rightarrow> heap \<Rightarrow> heap \<Rightarrow> jsval \<Rightarrow> jsval \<Rightarrow> jsval \<Rightarrow> bool" where
  "kept_as_given hs ht hw target finalKey v =
     (case target of
        Ref t \<Rightarrow>
          if finalKey = Str '''' then is_array ht t \<and> elements hw t = elements ht t @ [v]
          else get_prop hs hw target (to_key finalKey) = Inr v
               \<and> stored hw t (to_key finalKey) = v
      | _ \<Rightarrow> False)"

text \<open>
  The slot that a write with the given final key names in the target container: the slot of
  that key, or for the empty final key the slot of the element appended; and, when the final
  key is \<^verbatim>\<open>length\<close> and the target an array, any slot of the target.
\<close>

definition final_slot :: "heap \<Rightarrow> nat \<Rightarrow> jsval \<Rightarrow> string \<Rightarrow> bool" where
  "final_slot ht t finalKey k =
     (if finalKey = Str '''' then array_index k = Some (length (elements ht t))
      else k = to_key finalKey \<or> (to_key finalKey = ''length'' \<and> is_array ht t))"

text \<open>
  The formerly missing intermediates of a write traversal: the containers and keys at which
  the traversal, started at step \<open>i\<close> with the steps \<open>ks\<close> still to go, read a falsy value
  and so attached a new container.
\<close>

fun attached ::
  "host \<Rightarrow> string list \<Rightarrow> jsval \<Rightarrow> nat \<Rightarrow> string list \<Rightarrow> jsval \<Rightarrow> heap \<Rightarrow> (jsval \<times> string) list" where
  "attached hs pp fk i [] acc h = []"
| "attached hs pp fk i (k # ks) acc h =
     (case get_prop hs h acc k of
        Inl e \<Rightarrow> []
      | Inr cur \<Rightarrow>
          (if truthy cur then [] else [(acc, k)])
          @ (case getTargetPropToSet hs pp fk h acc k i of
               (Inl e, h') \<Rightarrow> []
             | (Inr v, h') \<Rightarrow> attached hs pp fk (Suc i) ks v h'))"

text \<open>
  An excerpt of the objects a program starts with, for the examples: at the addresses 0 to
  11 \<^verbatim>\<open>Object.prototype\<close>, \<^verbatim>\<open>Function.prototype\<close>, \<^verbatim>\<open>Object\<close>,
  \<^verbatim>\<open>Object.prototype.toString\<close>, \<^verbatim>\<open>Array.prototype\<close>, \<^verbatim>\<open>Array\<close>,
  \<^verbatim>\<open>Array.prototype.push\<close>, \<^verbatim>\<open>Array.prototype.slice\<close>, \<^verbatim>\<open>String.prototype\<close>,
  \<^verbatim>\<open>String.prototype.slice\<close>, \<^verbatim>\<open>Number.prototype\<close> and \<^verbatim>\<open>Boolean.prototype\<close>.  The length
  coercion of the example host refuses every string and object; no example assigns one to the
  length of an array.
\<close>

definition realm :: heap where
  "realm =
     [Object Obj [(''constructor'', Data (Ref 2) True), (''__proto__'', ProtoAccessor),
                  (''toString'', Data (Ref 3) True)] Null,
      Object (Fn OtherBuiltin) [(''length'', Data (Num 0) False), (''name'', Data (Str '''') False),
                                (''caller'', Thrower), (''arguments'', Thrower)] (Ref 0),
      Object (Fn OtherBuiltin) [(''length'', Data (Num 1) False),
                                (''name'', Data (Str ''Object'') False),
                                (''prototype'', Data (Ref 0) False)] (Ref 1),
      Object (Fn OtherBuiltin) [(''length'', Data (Num 0) False),
                                (''name'', Data (Str ''toString'') False)] (Ref 1),
      Object (Arr []) [(''constructor'', Data (Ref 5) True), (''push'', Data (Ref 6) True),
                       (''slice'', Data (Ref 7) True)] (Ref 0),
      Object (Fn ArrayConstructor) [(''length'', Data (Num 1) False),
                                    (''name'', Data (Str ''Array'') False),
                                    (''prototype'', Data (Ref 4) False)] (Ref 1),
      Object (Fn ArrayPush) [(''length'', Data (Num 1) False),
                             (''name'', Data (Str ''push'') False)] (Ref 1),
      Object (Fn ArraySlice) [(''length'', Data (Num 2) False),
                              (''name'', Data (Str ''slice'') False)] (Ref 1),
      Object Obj [(''slice'', Data (Ref 9) True)] (Ref 0),
      Object (Fn StringSlice) [(''length'', Data (Num 2) False),
                               (''name'', Data (Str ''slice'') False)] (Ref 1),
      Object Obj [] (Ref 0),
      Object Obj [] (Ref 0)]"

definition engine :: host where
  "engine = \<lparr>toLength = (\<lambda>h v. Inl RangeError), objectPrototype = 0, arrayPrototype = 4,
              stringPrototype = 8, numberPrototype = 10, booleanPrototype = 11\<rparr>"

section \<open>Assignments change one object\<close>

lemma define_own_length: "length (snd (define_own hs h a k v)) = length h"
  by (auto simp: define_own_def split: jsobj.splits kind.splits option.splits sum.splits)

lemma define_own_other: "c \<noteq> a \<Longrightarrow> snd (define_own hs h a k v) ! c = h ! c"
  by (auto simp: define_own_def split: jsobj.splits kind.splits option.splits sum.splits)

lemma set_proto_length: "length (snd (set_proto hs h ob v)) = length h"
  by (auto simp: set_proto_def split: jsval.splits)

lemma set_proto_other: "ob \<noteq> Ref c \<Longrightarrow> snd (set_proto hs h ob v) ! c = h ! c"
  by (cases ob) (simp_all add: set_proto_def)

lemma set_prop_length: "length (snd (set_prop hs h ob k v)) = length h"
  by (auto simp: set_prop_def define_own_length set_proto_length
      split: option.splits slot.splits bool.splits jsval.splits)

lemma set_prop_other: "ob \<noteq> Ref c \<Longrightarrow> snd (set_prop hs h ob k v) ! c = h ! c"
  by (cases ob)
    (auto simp: set_prop_def define_own_other set_proto_other
      split: option.splits slot.splits bool.splits)

section \<open>Reading\<close>

lemma array_slice_last_extends: "\<exists>tmp. snd (array_slice_last hs h a) = h @ tmp"
  by (auto simp: array_slice_last_def split: jsobj.splits kind.splits option.splits)

lemma slice_last_extends: "\<exists>tmp. snd (slice_last hs h ob) = h @ tmp"
proof -
  have "\<exists>tmp. snd (case array_slice_last hs h a of
                     (Inl e, h') \<Rightarrow> (Inl e, h')
                   | (Inr r, h') \<Rightarrow> (get_prop hs h' r ''0'', h')) = h @ tmp" for a
    using array_slice_last_extends [of hs h a]
    by (auto split: prod.splits sum.splits)
  then show ?thesis
    by (auto simp: slice_last_def split: sum.splits option.splits builtin.splits jsval.splits)
qed

lemma piecesReducer_extends: "\<exists>tmp. snd (piecesReducer hs h ob k i) = h @ tmp"
  using slice_last_extends [of hs h ob] by (simp add: piecesReducer_def)

lemma reduce_pieces_extends: "\<exists>tmp. snd (reduce_from (piecesReducer hs) i ks acc h) = h @ tmp"
proof (induction ks arbitrary: i acc h)
  case Nil
  then show ?case by simp
next
  case (Cons k ks)
  obtain r h1 where s: "piecesReducer hs h acc k i = (r, h1)"
    by (cases "piecesReducer hs h acc k i")
  obtain t1 where h1: "h1 = h @ t1"
    using piecesReducer_extends [of hs h acc k i] s by auto
  show ?case
  proof (cases r)
    case (Inl e)
    then show ?thesis using s h1 by simp
  next
    case (Inr x)
    obtain t2 where "snd (reduce_from (piecesReducer hs) (Suc i) ks x h1) = h1 @ t2"
      using Cons.IH [of "Suc i" x h1] by auto
    then show ?thesis using s Inr h1 by simp
  qed
qed

lemma getValue_try_extends: "\<exists>tmp. snd (getValue_try hs path model separator h) = h @ tmp"
proof (cases "generatePathPieces path separator")
  case (Inl e)
  then show ?thesis by (simp add: getValue_try_def)
next
  case (Inr pieces)
  obtain tmp where "snd (reduce_from (piecesReducer hs) 0 pieces model h) = h @ tmp"
    using reduce_pieces_extends by blast
  then show ?thesis using Inr
    by (auto simp: getValue_try_def reduce_def split: prod.splits sum.splits)
qed

text \<open>
  C9.  \<^verbatim>\<open>getValue\<close> is read-only: whatever the path, the model and the separator, the store
  after the call is the store before it, every object and array in it unchanged, followed only
  by the temporary arrays that \<^verbatim>\<open>slice(-1)\<close> allocated.  (A \<^verbatim>\<open>slice\<close> that is not the
  built-in method of its receiver is not followed: such a call is outside what is modelled.)
\<close>

theorem getValue_read_only: "\<exists>tmp. snd (getValue hs path model separator h) = h @ tmp"
proof -
  obtain tmp where "snd (getValue_try hs path model separator h) = h @ tmp"
    using getValue_try_extends by blast
  then show ?thesis
    by (auto simp: getValue_def split: prod.splits sum.splits)
qed

section \<open>Errors never reach the caller\<close>

text \<open>
  C4.  Neither \<^verbatim>\<open>getValue\<close> nor \<^verbatim>\<open>setValue\<close> completes with an exception, whatever the
  path, value, model and separator; a failure inside \<^verbatim>\<open>getValue\<close> becomes the result
  \<^verbatim>\<open>null\<close>; and \<^verbatim>\<open>setValue\<close> with a falsy path or a falsy model returns at once, the store
  unchanged and nothing logged.
\<close>

theorem never_raises:
  "(\<exists>r. fst (getValue hs path model separator h) = Inr r)
   \<and> (\<forall>e h'. getValue_try hs path model separator h = (Inl e, h')
          \<longrightarrow> fst (getValue hs path model separator h) = Inr Null)
   \<and> (\<exists>r. fst (setValue hs path v model separator h) = Inr r)
   \<and> (\<not> truthy path \<or> \<not> truthy model
          \<longrightarrow> setValue hs path v model separator h = (Inr Null, h, []))"
  by (auto simp: getValue_def setValue_def split: prod.splits sum.splits)

lemmas ev = setValue_def setValue_try_def getValue_def getValue_try_def reduce_def
  getTargetPropToSet_def piecesReducer_def get_prop_def set_prop_def define_own_def set_proto_def
  from_proto_def deref_def js_split_def js_replace_def default_separator_def nextKey_def
  newContainer_def isArrayKey_def parseInt_def array_index_def is_digit_def is_space_def
  decimal_def string_slot_def push_def array_push_def slice_last_def array_slice_last_def
  species_check_def callable_def store_at_def resize_def realm_def engine_def Let_def

theorem never_raises_witness:
  "getValue_try engine (Str ''a.b'') (Ref 12) ''.'' (realm @ [Object Obj [] (Ref 0)])
     = (Inl TypeError, realm @ [Object Obj [] (Ref 0)])
   \<and> fst (getValue engine (Str ''a.b'') (Ref 12) ''.'' (realm @ [Object Obj [] (Ref 0)])) = Inr Null
   \<and> \<not> truthy (Str '''')
   \<and> setValue engine (Str '''') (Num 1) (Ref 12) ''.'' (realm @ [Object Obj [] (Ref 0)])
       = (Inr Null, realm @ [Object Obj [] (Ref 0)], [])
   \<and> \<not> truthy Null
   \<and> setValue engine (Str ''a'') (Num 1) Null ''.'' (realm @ [Object Obj [] (Ref 0)])
       = (Inr Null, realm @ [Object Obj [] (Ref 0)], [])"
proof -
  have t: "getValue_try engine (Str ''a.b'') (Ref 12) ''.'' (realm @ [Object Obj [] (Ref 0)])
     = (Inl TypeError, realm @ [Object Obj [] (Ref 0)])"
    by (simp add: getValue_try_def js_split_def js_replace_def reduce_def piecesReducer_def
        get_prop_def from_proto_def array_index_def is_digit_def deref_def realm_def engine_def)
  show ?thesis
    using t
      never_raises [of engine "Str ''a.b''" "Ref 12" "''.''" "realm @ [Object Obj [] (Ref 0)]" "Num 1"]
      never_raises [of engine "Str ''''" "Ref 12" "''.''" "realm @ [Object Obj [] (Ref 0)]" "Num 1"]
      never_raises [of engine "Str ''a''" Null "''.''" "realm @ [Object Obj [] (Ref 0)]" "Num 1"]
    by simp
qed

section \<open>The kind of a container created on the way\<close>

lemma parseInt_integer_prefix: "parseInt k \<noteq> None \<longleftrightarrow> integer_prefix k"
  unfolding parseInt_def integer_prefix_def Let_def
  by (simp only: takeWhile_eq_Nil_iff if_distrib [of "\<lambda>x. x \<noteq> None"] option.simps simp_thms
      if_False if_True if_bool_eq_conj de_Morgan_disj)

lemma isArrayKey_integer_prefix: "isArrayKey k \<longleftrightarrow> k = [] \<or> integer_prefix k"
  using parseInt_integer_prefix [of k] by (simp add: isArrayKey_def)

lemma new_container_at:
  assumes g: "get_prop hs h obj key = Inr cur" and f: "\<not> truthy cur" and v: "valid_ref h obj"
  shows "snd (getTargetPropToSet hs pathPieces finalKey h obj key i) ! length h
           = newContainer hs (nextKey pathPieces finalKey i)"
proof -
  let ?H = "h @ [newContainer hs (nextKey pathPieces finalKey i)]"
  have "obj \<noteq> Ref (length h)" using v by (auto simp: valid_ref_def)
  then have "snd (set_prop hs ?H obj key (Ref (length h))) ! length h = ?H ! length h"
    by (rule set_prop_other)
  then show ?thesis
    using g f by (auto simp: getTargetPropToSet_def split: prod.splits sum.splits)
qed

text \<open>
  C7 (amended).  The container created for a missing intermediate is an array exactly when the
  next key is the empty step or begins, after white space and an optional sign, with a decimal
  digit; it is an object otherwise.  Nothing restricts the integer to be non-negative: a
  negative token such as \<^verbatim>\<open>-1\<close> makes an array, and so does \<^verbatim>\<open>3foo\<close>.
\<close>

theorem created_container_kind:
  assumes g: "get_prop hs h obj key = Inr cur" and f: "\<not> truthy cur" and v: "valid_ref h obj"
    and n: "nextKey pathPieces finalKey i = Str nk"
  shows "snd (getTargetPropToSet hs pathPieces finalKey h obj key i) ! length h
           = (if nk = [] \<or> integer_prefix nk then Object (Arr []) [] (Ref (arrayPrototype hs))
              else Object Obj [] (Ref (objectPrototype hs)))"
  using new_container_at [OF g f v, of pathPieces finalKey i]
  by (simp add: n newContainer_def isArrayKey_integer_prefix)

theorem created_container_kind_witness:
  "integer_prefix ''-1''
   \<and> snd (getTargetPropToSet engine [''a''] (Str ''-1'') (realm @ [Object Obj [] (Ref 0)])
            (Ref 12) ''a'' 0) ! 13
       = Object (Arr []) [] (Ref 4)
   \<and> \<not> integer_prefix ''b''
   \<and> snd (getTargetPropToSet engine [''a''] (Str ''b'') (realm @ [Object Obj [] (Ref 0)])
            (Ref 12) ''a'' 0) ! 13
       = Object Obj [] (Ref 0)"
  using created_container_kind [where h = "realm @ [Object Obj [] (Ref 0)]" and obj = "Ref 12"
      and key = "''a''" and hs = engine
      and cur = Undefined and i = 0 and pathPieces = "[''a'']" and finalKey = "Str ''-1''"
      and nk = "''-1''"]
    created_container_kind [where h = "realm @ [Object Obj [] (Ref 0)]" and obj = "Ref 12"
      and key = "''a''" and hs = engine
      and cur = Undefined and i = 0 and pathPieces = "[''a'']" and finalKey = "Str ''b''"
      and nk = "''b''"]
  by (simp add: ev valid_ref_def integer_prefix_def)

text \<open>
  C7 as stated fails: \<^verbatim>\<open>parseInt('-1', 10)\<close> is \<open>-1\<close>, not \<^verbatim>\<open>NaN\<close>, so
  \<^verbatim>\<open>setValue('a.-1', 1, {})\<close> creates \<^verbatim>\<open>a\<close> as an array (and stores the value under its
  property \<^verbatim>\<open>-1\<close>).
\<close>

theorem negative_key_counterexample:
  "parseInt ''-1'' = Some (- 1) \<and> isArrayKey ''-1''
   \<and> setValue engine (Str ''a.-1'') (Num 1) (Ref 12) default_separator
        (realm @ [Object Obj [] (Ref 0)])
       = (Inr Undefined,
          realm @ [Object Obj [(''a'', Data (Ref 13) True)] (Ref 0),
                   Object (Arr []) [(''-1'', Data (Num 1) True)] (Ref 4)], [])"
  by (simp add: ev)

section \<open>Prototype chains\<close>

lemma find_slot_nonref [simp]: "(\<forall>a. v \<noteq> Ref a) \<Longrightarrow> find_slot h n v k = None"
  by (cases n; cases v) auto

lemma find_slot_0 [simp]: "find_slot h 0 v k = None"
  by (cases v) auto

lemma find_slot_stable:
  assumes "chain_avoids h n v a" and "n \<le> m" and "length h \<le> length h'"
    and "\<forall>b<length h. b \<noteq> a \<longrightarrow> h' ! b = h ! b"
  shows "find_slot h' m v k = find_slot h n v k"
  using assms
proof (induction h n v a arbitrary: m rule: chain_avoids.induct)
  case (2 h n p a)
  obtain m' where m: "m = Suc m'" and nm: "n \<le> m'"
    using "2.prems"(2) by (cases m) auto
  have p: "p < length h" "p \<noteq> a" and c: "chain_avoids h n (proto_of (h ! p)) a"
    using "2.prems"(1) by auto
  have e: "h' ! p = h ! p" using "2.prems"(4) p by simp
  have "find_slot h' m' (proto_of (h ! p)) k = find_slot h n (proto_of (h ! p)) k"
    using "2.IH" [OF c nm "2.prems"(3) "2.prems"(4)] .
  then show ?case using p e m "2.prems"(3) by (simp split: option.split)
qed simp_all

lemma from_proto_stable:
  assumes "chain_avoids h (length h) v a" and "length h \<le> length h'"
    and "\<forall>b<length h. b \<noteq> a \<longrightarrow> h' ! b = h ! b"
  shows "from_proto h' v k = from_proto h v k"
  using find_slot_stable [OF assms(1) assms(2) assms(2) assms(3)]
  by (simp add: from_proto_def)

lemma lookup_append:
  assumes a: "a < length h" and c: "chain_ends h a"
  shows "lookup hs (h @ t) (Ref a) k = lookup hs h (Ref a) k"
proof -
  have d: "deref (h @ t) a = deref h a" using a by (simp add: deref_def nth_append)
  have "from_proto (h @ t) (proto_of (deref h a)) k = from_proto h (proto_of (deref h a)) k"
    using c by (intro from_proto_stable [where a = "length h"]) (simp_all add: chain_ends_def nth_append)
  then show ?thesis by (simp add: d split: option.split)
qed

section \<open>The look-ahead\<close>

lemma store_at_nth: "store_at i v xs ! i = v"
  by (simp add: store_at_def nth_append)

lemma store_at_length: "i < length (store_at i v xs)"
  by (simp add: store_at_def)

lemma data_value_update:
  "data_value (map_of (AList.update k (Data v w) ps) k') = (if k' = k then v else data_value (map_of ps k'))"
  by (simp add: update_conv')

lemma define_own_stored:
  assumes "a < length h" and "key \<noteq> ''length'' \<or> \<not> is_array h a"
  shows "fst (define_own hs h a key v) = Inr v
         \<and> stored (snd (define_own hs h a key v)) a key = v"
  using assms
  by (auto simp: define_own_def stored_def is_array_def deref_def data_value_update store_at_nth
      store_at_length split: jsobj.splits kind.splits option.splits)

lemma set_prop_stored:
  assumes "a < length h" and "key \<noteq> ''length'' \<or> \<not> is_array h a"
    and "assignable hs h (Ref a) key"
  shows "fst (set_prop hs h (Ref a) key v) = Inr v
         \<and> stored (snd (set_prop hs h (Ref a) key v)) a key = v"
  using define_own_stored [OF assms(1,2), of hs v] assms(3)
  by (auto simp: set_prop_def assignable_def split: option.splits slot.splits bool.splits)

text \<open>
  C6.  On a path whose steps before the last are non-empty: when the value at a non-final step
  is missing (falsy), the callback consults the step at index \<open>i + 1\<close> of the non-final steps
  if there is one, otherwise the remembered final key.  The container it creates is an array
  exactly when that key is the empty string or \<^verbatim>\<open>parseInt\<close> reads an integer from it, an
  object otherwise.  Where the key can be assigned on the object (the object has no property of
  that name or a writable one, and the key is not the \<^verbatim>\<open>length\<close> of an array), the new
  container is attached under the key and returned.
\<close>

theorem next_key_lookahead:
  assumes g: "get_prop hs h obj key = Inr cur" and f: "\<not> truthy cur" and v: "valid_ref h obj"
    and ne: "list_all (\<lambda>k. k \<noteq> []) pp"
    and n: "nx = (if i + 1 < length pp then pp ! (i + 1) else fk)"
  shows "snd (getTargetPropToSet hs pp (Str fk) h obj key i) ! length h
           = (if nx = [] \<or> parseInt nx \<noteq> None then Object (Arr []) [] (Ref (arrayPrototype hs))
              else Object Obj [] (Ref (objectPrototype hs)))
       \<and> (\<forall>a. obj = Ref a \<and> chain_ends h a \<and> assignable hs h obj key
                \<and> (key \<noteq> ''length'' \<or> \<not> is_array h a)
             \<longrightarrow> fst (getTargetPropToSet hs pp (Str fk) h obj key i) = Inr (Ref (length h))
               \<and> stored (snd (getTargetPropToSet hs pp (Str fk) h obj key i)) a key
                   = Ref (length h))"
proof -
  let ?H = "h @ [newContainer hs (nextKey pp (Str fk) i)]"
  have "pp ! (i + 1) \<noteq> []" if "i + 1 < length pp"
    using ne that by (simp add: list_all_length)
  then have nk: "nextKey pp (Str fk) i = Str nx"
    using n by (simp add: nextKey_def)
  have kind: "snd (getTargetPropToSet hs pp (Str fk) h obj key i) ! length h
           = (if nx = [] \<or> parseInt nx \<noteq> None then Object (Arr []) [] (Ref (arrayPrototype hs))
              else Object Obj [] (Ref (objectPrototype hs)))"
    using new_container_at [OF g f v, of pp "Str fk" i]
    by (simp add: nk newContainer_def isArrayKey_def)
  have attach: "fst (getTargetPropToSet hs pp (Str fk) h obj key i) = Inr (Ref (length h))
               \<and> stored (snd (getTargetPropToSet hs pp (Str fk) h obj key i)) a key
                   = Ref (length h)"
    if o: "obj = Ref a" and c: "chain_ends h a" and w: "assignable hs h obj key"
      and k: "key \<noteq> ''length'' \<or> \<not> is_array h a" for a
  proof -
    have a: "a < length h" using v o by (simp add: valid_ref_def)
    then have a': "a < length ?H" by simp
    have k': "key \<noteq> ''length'' \<or> \<not> is_array ?H a"
      using k a by (simp add: is_array_def deref_def nth_append)
    have w': "assignable hs ?H (Ref a) key"
      using w o lookup_append [OF a c, of hs _ key] by (simp add: assignable_def)
    show ?thesis
      using set_prop_stored [OF a' k' w', of "Ref (length h)"] g f o
      by (auto simp: getTargetPropToSet_def split: prod.splits sum.splits)
  qed
  show ?thesis using kind attach by blast
qed

theorem next_key_lookahead_witness:
  "snd (getTargetPropToSet engine [''a'', ''0''] (Str ''b'') (realm @ [Object Obj [] (Ref 0)])
          (Ref 12) ''a'' 0) ! 13
     = Object (Arr []) [] (Ref 4)
   \<and> fst (getTargetPropToSet engine [''a'', ''0''] (Str ''b'') (realm @ [Object Obj [] (Ref 0)])
          (Ref 12) ''a'' 0)
     = Inr (Ref 13)
   \<and> stored (snd (getTargetPropToSet engine [''a'', ''0''] (Str ''b'')
        (realm @ [Object Obj [] (Ref 0)]) (Ref 12) ''a'' 0)) 12 ''a'' = Ref 13"
  using next_key_lookahead [where h = "realm @ [Object Obj [] (Ref 0)]" and obj = "Ref 12"
      and key = "''a''" and hs = engine
      and cur = Undefined and i = 0 and pp = "[''a'', ''0'']" and fk = "''b''" and nx = "''0''"]
  by (simp add: ev valid_ref_def stored_def chain_ends_def assignable_def is_array_def)

section \<open>Parsing a path\<close>

lemma get_substitution_short: "length r \<le> 1 \<Longrightarrow> get_substitution m pre post r = r"
  by (cases r) auto

lemma js_replace_char:
  assumes "length r \<le> 1"
  shows "js_replace s [x] r = replace_first x r s"
proof (induction s)
  case Nil
  then show ?case by (simp add: js_replace_def)
next
  case (Cons a s)
  show ?case
  proof (cases "a = x")
    case True
    then show ?thesis
      using assms by (simp add: js_replace_def get_substitution_short)
  next
    case False
    then show ?thesis
      using Cons assms
      by (cases "index_of [x] s") (auto simp: js_replace_def get_substitution_short Let_def)
  qed
qed

lemma split_char_not_Nil: "split_char c s \<noteq> []"
  by (induction s) (auto split: list.splits)

lemma split_from_char:
  "split_from [c] 0 cur s = (rev cur @ hd (split_char c s)) # tl (split_char c s)"
proof (induction s arbitrary: cur)
  case Nil
  then show ?case by simp
next
  case (Cons x xs)
  show ?case
  proof (cases "x = c")
    case True
    then show ?thesis
      using Cons [of "[]"] split_char_not_Nil [of c xs] by simp
  next
    case False
    then show ?thesis
      using Cons [of "x # cur"] split_char_not_Nil [of c xs] by (simp split: list.splits)
  qed
qed

lemma js_split_char: "js_split s [c] = split_char c s"
  using split_from_char [of c "[]" s] split_char_not_Nil [of c s]
  by (simp add: js_split_def)

lemma length_split_char: "length (split_char c s) = Suc (count_list s c)"
  by (induction s) (auto split: list.splits simp: split_char_not_Nil)

lemma split_char_no_separator: "list_all (\<lambda>piece. c \<notin> set piece) (split_char c s)"
  by (induction s) (auto split: list.splits)

lemma join_split_char: "join_char c (split_char c s) = s"
proof (induction s)
  case Nil
  then show ?case by simp
next
  case (Cons x xs)
  obtain p ps where sp: "split_char c xs = p # ps"
    using split_char_not_Nil [of c xs] by (cases "split_char c xs") auto
  show ?case
  proof (cases "x = c")
    case True
    then show ?thesis using Cons sp by simp
  next
    case False
    then show ?thesis using Cons sp by (cases ps) auto
  qed
qed

text \<open>
  C8.  For every path string and every separator of one character, \<^verbatim>\<open>generatePathPieces\<close>
  succeeds and yields what the specification describes: the first \<^verbatim>\<open>[\<close> replaced by the
  separator, then the first \<^verbatim>\<open>]\<close> removed, then the string cut at every separator.  The
  cut keeps empty steps: there is one step more than there are separators, no step contains the
  separator, and joining the steps with the separator gives the normalised string back.  Later
  brackets stay: \<^verbatim>\<open>a[0].b[1]\<close> parses to \<^verbatim>\<open>a\<close>, \<^verbatim>\<open>0\<close>, \<^verbatim>\<open>b[1]\<close>.
\<close>

theorem generatePathPieces_parses:
  "generatePathPieces (Str path) [c] = Inr (parsePath path c)
   \<and> length (parsePath path c)
       = Suc (count_list (replace_first CHR '']'' [] (replace_first CHR ''['' [c] path)) c)
   \<and> list_all (\<lambda>piece. c \<notin> set piece) (parsePath path c)
   \<and> join_char c (parsePath path c)
       = replace_first CHR '']'' [] (replace_first CHR ''['' [c] path)
   \<and> generatePathPieces (Str ''a[0].b[1]'') ''.'' = Inr [''a'', ''0'', ''b[1]'']
   \<and> generatePathPieces (Str ''a..b.'') ''.'' = Inr [''a'', '''', ''b'', '''']"
  by (simp add: parsePath_def js_replace_char js_split_char length_split_char
      split_char_no_separator join_split_char)

section \<open>Reading a path that resolves\<close>

lemma find_slot_mono:
  "find_slot h n v k = Some s \<Longrightarrow> n \<le> m \<Longrightarrow> find_slot (h @ t) m v k = Some s"
proof (induction h n v k arbitrary: m rule: find_slot.induct)
  case (1 h n a k)
  obtain m' where m: "m = Suc m'" and nm: "n \<le> m'"
    using "1.prems"(2) by (cases m) auto
  have a: "a < length h" using "1.prems"(1) by (auto split: if_splits)
  show ?case
  proof (cases "own_slot (h ! a) k")
    case None
    then have "find_slot h n (proto_of (h ! a)) k = Some s" using "1.prems"(1) a by simp
    then have "find_slot (h @ t) m' (proto_of (h ! a)) k = Some s"
      using "1.IH" [OF a None _ nm] by simp
    then show ?thesis using a m None by (simp add: nth_append)
  next
    case (Some s')
    then show ?thesis using "1.prems"(1) a m by (simp add: nth_append)
  qed
qed simp_all

lemma lookup_mono:
  assumes "lookup hs h (Ref a) k = Some s"
  shows "lookup hs (h @ t) (Ref a) k = Some s"
proof -
  have a: "a < length h"
    using assms by (auto simp: deref_def from_proto_def split: if_splits)
  then have d: "deref (h @ t) a = deref h a" by (simp add: deref_def nth_append)
  show ?thesis
  proof (cases "own_slot (deref h a) k")
    case None
    then have f: "array_index k = None"
      and "find_slot h (length h) (proto_of (deref h a)) k = Some s"
      using assms by (auto simp: from_proto_def split: if_splits)
    then have "find_slot (h @ t) (length (h @ t)) (proto_of (deref h a)) k = Some s"
      using find_slot_mono [of h "length h" _ k s "length (h @ t)" t] by simp
    then show ?thesis using None f by (simp add: d from_proto_def)
  next
    case (Some s')
    then show ?thesis using assms by (simp add: d)
  qed
qed

lemma callable_mono: "callable h f = Some b \<Longrightarrow> callable (h @ t) f = Some b"
  by (cases f) (auto simp: callable_def deref_def nth_append split: kind.splits if_splits)

lemma builtin_slice_extend:
  assumes "builtin_slice hs h a"
  shows "builtin_slice hs (h @ t) a"
proof -
  from assms obtain f w c w' where
    s: "lookup hs h (Ref a) ''slice'' = Some (Data f w)" and f: "callable h f = Some ArraySlice"
    and c: "lookup hs h (Ref a) ''constructor'' = Some (Data (Ref c) w')"
    and k: "c < length h" "kind_of (h ! c) \<noteq> Fn OtherBuiltin"
    by (auto simp: builtin_slice_def split: option.splits slot.splits jsval.splits)
  show ?thesis
    using lookup_mono [OF s, of t] lookup_mono [OF c, of t] callable_mono [OF f, of t] k
    by (simp add: builtin_slice_def nth_append)
qed

lemma resolve_extend: "resolve hs h m ks = Some v \<Longrightarrow> resolve hs (h @ ext) m ks = Some v"
proof (induction ks arbitrary: m)
  case Nil
  then show ?case by simp
next
  case (Cons k ks)
  from Cons.prems obtain a where m: "m = Ref a" and a: "a < length h"
    by (cases m) (auto split: if_splits)
  show ?case
    using Cons.prems Cons.IH m a builtin_slice_extend [of hs h a ext]
    by (auto simp: nth_append split: kind.splits if_splits option.splits slot.splits)
qed

lemma array_index_not_length: "array_index k = Some i \<Longrightarrow> k \<noteq> ''length''"
  by (auto simp: array_index_def is_digit_def)

lemma slice_last_builtin:
  assumes a: "a < length h" and arr: "h ! a = Object (Arr xs) ps pr" and b: "builtin_slice hs h a"
  shows "slice_last hs h (Ref a)
           = (Inr (if xs = [] then Undefined else last xs),
              h @ [Object (Arr (if xs = [] then [] else [last xs])) [] (Ref (arrayPrototype hs))])"
proof -
  from b obtain f w c w' where
    s: "lookup hs h (Ref a) ''slice'' = Some (Data f w)" and f: "callable h f = Some ArraySlice"
    and c: "lookup hs h (Ref a) ''constructor'' = Some (Data (Ref c) w')"
    and k: "c < length h" "kind_of (h ! c) \<noteq> Fn OtherBuiltin"
    by (auto simp: builtin_slice_def split: option.splits slot.splits jsval.splits)
  have g: "get_prop hs h (Ref a) ''slice'' = Inr f" using s by (simp add: get_prop_def)
  have "callable h (Ref c) \<noteq> Some OtherBuiltin"
    using k by (auto simp: callable_def deref_def split: kind.splits)
  then have sp: "species_check hs h a = None"
    using c by (simp add: species_check_def get_prop_def)
  have d: "deref h a = Object (Arr xs) ps pr" using a arr by (simp add: deref_def)
  let ?t = "Object (Arr (if xs = [] then [] else [last xs])) [] (Ref (arrayPrototype hs))"
  have al: "array_slice_last hs h a = (Inr (Ref (length h)), h @ [?t])"
    using d sp by (simp add: array_slice_last_def)
  have "get_prop hs (h @ [?t]) (Ref (length h)) ''0''
          = Inr (if xs = [] then Undefined else last xs)"
    by (simp add: get_prop_def deref_def from_proto_def array_index_def is_digit_def decimal_def)
  then show ?thesis using g f al by (simp add: slice_last_def)
qed

lemma resolve_reduce:
  "resolve hs h m ks = Some v \<Longrightarrow> fst (reduce_from (piecesReducer hs) j ks m h) = Inr v"
proof (induction ks arbitrary: m h j)
  case Nil
  then show ?case by simp
next
  case (Cons k ks)
  from Cons.prems obtain a where m: "m = Ref a" and a: "a < length h"
    by (cases m) (auto split: if_splits)
  obtain kd ps pr where o: "h ! a = Object kd ps pr" by (cases "h ! a")
  have d: "deref h a = Object kd ps pr" using a o by (simp add: deref_def)
  show ?case
  proof (cases "\<exists>xs. kd = Arr xs")
    case False
    then obtain x w where k: "k \<noteq> []" and x: "map_of ps k = Some (Data x w)"
      and r: "resolve hs h x ks = Some v"
      using Cons.prems m a o by (auto split: if_splits option.splits slot.splits kind.splits)
    have "own_slot (Object kd ps pr) k = Some (Data x w)" using False x by (cases kd) auto
    then have "piecesReducer hs h m k j = (Inr x, h)"
      using k m by (simp add: piecesReducer_def get_prop_def d)
    then show ?thesis using Cons.IH [OF r, of "Suc j"] by simp
  next
    case True
    then obtain xs where kd: "kd = Arr xs" by blast
    show ?thesis
    proof (cases "k = []")
      case True
      then have xs: "xs \<noteq> []" and s: "builtin_slice hs h a"
        and r: "resolve hs h (last xs) ks = Some v"
        using Cons.prems m a o kd by (auto split: if_splits)
      have "piecesReducer hs h m k j
              = (Inr (last xs), h @ [Object (Arr [last xs]) [] (Ref (arrayPrototype hs))])"
        using True xs m slice_last_builtin [OF a o [unfolded kd] s] by (simp add: piecesReducer_def)
      then show ?thesis
        using Cons.IH [OF resolve_extend [OF r]] by simp
    next
      case False
      then obtain i where i: "array_index k = Some i" "i < length xs"
        and r: "resolve hs h (xs ! i) ks = Some v"
        using Cons.prems m a o kd by (auto split: if_splits option.splits)
      have "k \<noteq> ''length''" using i by (auto dest: array_index_not_length)
      then have "piecesReducer hs h m k j = (Inr (xs ! i), h)"
        using False i m kd by (simp add: piecesReducer_def get_prop_def d)
      then show ?thesis using Cons.IH [OF r, of "Suc j"] by simp
    qed
  qed
qed

text \<open>
  C2.  Whenever the steps of the path resolve, in the model, to a value \<open>v\<close>, \<^verbatim>\<open>getValue\<close>
  returns \<open>v\<close> if it is truthy and \<^verbatim>\<open>null\<close> if it is falsy: a stored falsy value reads like
  a missing one.
\<close>

theorem getValue_resolved:
  assumes g: "generatePathPieces (Str p) separator = Inr pieces"
    and r: "resolve hs h model pieces = Some v"
  shows "fst (getValue hs (Str p) model separator h) = Inr (if truthy v then v else Null)"
proof (cases "truthy model")
  case True
  have "fst (reduce (piecesReducer hs) pieces model h) = Inr v"
    using resolve_reduce [OF r] by (simp add: reduce_def)
  then show ?thesis
    using True g by (auto simp: getValue_def getValue_try_def split: prod.splits sum.splits)
next
  case False
  then have "pieces = [] \<and> v = model"
    using r by (cases model; cases pieces) auto
  then show ?thesis using False by (simp add: getValue_def)
qed

theorem getValue_resolved_witness:
  "fst (getValue engine (Str ''user.name'') (Ref 12) ''.''
          (realm @ [Object Obj [(''user'', Data (Ref 13) True)] (Ref 0),
                    Object Obj [(''name'', Data (Str ''John Doe'') True)] (Ref 0)]))
     = Inr (Str ''John Doe'')
   \<and> fst (getValue engine (Str ''a.1'') (Ref 12) ''.''
            (realm @ [Object Obj [(''a'', Data (Ref 13) True)] (Ref 0),
                      Object (Arr [Num 5, Num 0]) [] (Ref 4)]))
       = Inr Null"
  using getValue_resolved [where p = "''user.name''" and separator = "''.''" and hs = engine
      and pieces = "[''user'', ''name'']" and model = "Ref 12" and v = "Str ''John Doe''"
      and h = "realm @ [Object Obj [(''user'', Data (Ref 13) True)] (Ref 0),
                    Object Obj [(''name'', Data (Str ''John Doe'') True)] (Ref 0)]"]
    getValue_resolved [where p = "''a.1''" and separator = "''.''" and hs = engine
      and pieces = "[''a'', ''1'']" and model = "Ref 12" and v = "Num 0"
      and h = "realm @ [Object Obj [(''a'', Data (Ref 13) True)] (Ref 0),
                      Object (Arr [Num 5, Num 0]) [] (Ref 4)]"]
  by (simp add: js_split_def js_replace_def array_index_def is_digit_def decimal_def realm_def)

section \<open>Traversing what exists\<close>

lemma resolve_step:
  assumes "resolve hs h m (k # ks) = Some v" and "k \<noteq> []"
  shows "\<exists>x. get_prop hs h m k = Inr x \<and> resolve hs h x ks = Some v"
proof -
  from assms(1) obtain a where m: "m = Ref a" and a: "a < length h"
    by (cases m) (auto split: if_splits)
  obtain kd ps pr where o: "h ! a = Object kd ps pr" by (cases "h ! a")
  show ?thesis
    using assms m a o
    by (cases kd)
      (auto simp: get_prop_def deref_def dest: array_index_not_length
        split: if_splits option.splits slot.splits)
qed

lemma resolve_truthy: "resolve hs h x ks = Some (Ref a) \<Longrightarrow> truthy x"
  by (cases ks; cases x) auto

lemma traverse_existing:
  "list_all (\<lambda>k. k \<noteq> []) ks \<Longrightarrow> resolve hs h m ks = Some (Ref a)
     \<Longrightarrow> reduce_from (getTargetPropToSet hs pp fk) i ks m h = (Inr (Ref a), h)"
proof (induction ks arbitrary: m i)
  case Nil
  then show ?case by simp
next
  case (Cons k ks)
  then obtain x where x: "get_prop hs h m k = Inr x" and r: "resolve hs h x ks = Some (Ref a)"
    using resolve_step [of hs h m k ks "Ref a"] by auto
  have "truthy x" using r by (rule resolve_truthy)
  then have "getTargetPropToSet hs pp fk h m k i = (Inr x, h)"
    using x by (simp add: getTargetPropToSet_def)
  then show ?case using Cons r by simp
qed

lemma piecesReducer_key: "k \<noteq> [] \<Longrightarrow> piecesReducer hs h ob k j = (get_prop hs h ob k, h)"
  by (simp add: piecesReducer_def)

lemma read_existing:
  "list_all (\<lambda>k. k \<noteq> []) ks \<Longrightarrow> resolve hs h m ks = Some v
     \<Longrightarrow> reduce_from (piecesReducer hs) j ks m h = (Inr v, h)"
proof (induction ks arbitrary: m j)
  case Nil
  then show ?case by simp
next
  case (Cons k ks)
  then obtain x where x: "get_prop hs h m k = Inr x" and r: "resolve hs h x ks = Some v"
    using resolve_step [of hs h m k ks v] by auto
  have "piecesReducer hs h m k j = (Inr x, h)"
    using x Cons.prems(1) by (simp add: piecesReducer_key)
  then show ?case using Cons r by simp
qed

lemma reduce_from_append:
  "reduce_from f i (xs @ ys) acc h =
     (case reduce_from f i xs acc h of
        (Inl e, h') \<Rightarrow> (Inl e, h')
      | (Inr v, h') \<Rightarrow> reduce_from f (i + length xs) ys v h')"
  by (induction xs arbitrary: i acc h) (auto split: prod.splits sum.splits)

lemma push_builtin:
  assumes a: "a < length h" and arr: "h ! a = Object (Arr xs) ps pr" and b: "builtin_push hs h a"
    and l: "length xs < 4294967295"
  shows "push hs h (Ref a) v
           = (Inr (Num (int (length xs) + 1)), h[a := Object (Arr (xs @ [v])) ps pr])"
proof -
  from b obtain f w where
    s: "lookup hs h (Ref a) ''push'' = Some (Data f w)" and f: "callable h f = Some ArrayPush"
    by (auto simp: builtin_push_def split: option.splits slot.splits)
  have g: "get_prop hs h (Ref a) ''push'' = Inr f" using s by (simp add: get_prop_def)
  have d: "deref h a = Object (Arr xs) ps pr" using a arr by (simp add: deref_def)
  show ?thesis using g f d l by (simp add: push_def array_push_def)
qed

text \<open>
  C5 (amended).  When the final step of a path is the empty step and the non-final steps lead
  to an array: \<^verbatim>\<open>setValue\<close> appends the value to the end of that array (the array has the
  built-in \<^verbatim>\<open>push\<close> and is below the maximal length), and \<^verbatim>\<open>getValue\<close> returns the last
  element of the array when there is one and it is truthy, \<^verbatim>\<open>null\<close> otherwise (the array
  has the built-in \<^verbatim>\<open>slice\<close>).
\<close>

theorem empty_final_step:
  assumes g: "generatePathPieces (Str p) separator = Inr (pp @ [''''])"
    and ne: "list_all (\<lambda>k. k \<noteq> []) pp"
    and r: "resolve hs h model pp = Some (Ref a)"
    and a: "a < length h" and arr: "h ! a = Object (Arr xs) ps pr"
  shows "(p \<noteq> [] \<and> builtin_push hs h a \<and> length xs < 4294967295
            \<longrightarrow> setValue hs (Str p) v model separator h
                  = (Inr Undefined, h[a := Object (Arr (xs @ [v])) ps pr], []))
       \<and> (builtin_slice hs h a
            \<longrightarrow> fst (getValue hs (Str p) model separator h)
                  = Inr (if xs \<noteq> [] \<and> truthy (last xs) then last xs else Null))"
proof -
  have m: "truthy model" using r by (rule resolve_truthy)
  have t: "reduce (getTargetPropToSet hs pp (Str '''')) pp model h = (Inr (Ref a), h)"
    using traverse_existing [OF ne r] by (simp add: reduce_def)
  have rd: "reduce_from (piecesReducer hs) 0 pp model h = (Inr (Ref a), h)"
    using ne r by (rule read_existing)
  have set: "setValue hs (Str p) v model separator h
                  = (Inr Undefined, h[a := Object (Arr (xs @ [v])) ps pr], [])"
    if "p \<noteq> []" "builtin_push hs h a" "length xs < 4294967295"
    using that(1) g t m push_builtin [OF a arr that(2,3), of v]
    by (simp add: setValue_def setValue_try_def)
  have get: "fst (getValue hs (Str p) model separator h)
                  = Inr (if xs \<noteq> [] \<and> truthy (last xs) then last xs else Null)"
    if "builtin_slice hs h a"
    using g rd m slice_last_builtin [OF a arr that]
    by (simp add: getValue_def getValue_try_def reduce_def reduce_from_append piecesReducer_def)
  show ?thesis using set get by blast
qed

theorem empty_final_step_witness:
  "setValue engine (Str ''list.'') (Num 5) (Ref 12) ''.''
      (realm @ [Object Obj [(''list'', Data (Ref 13) True)] (Ref 0),
                Object (Arr [Num 1, Num 2]) [] (Ref 4)])
     = (Inr Undefined,
        realm @ [Object Obj [(''list'', Data (Ref 13) True)] (Ref 0),
                 Object (Arr [Num 1, Num 2, Num 5]) [] (Ref 4)], [])
   \<and> fst (getValue engine (Str ''list.'') (Ref 12) ''.''
            (realm @ [Object Obj [(''list'', Data (Ref 13) True)] (Ref 0),
                      Object (Arr [Num 1, Num 2, Num 3]) [] (Ref 4)])) = Inr (Num 3)"
  using empty_final_step [where p = "''list.''" and separator = "''.''" and pp = "[''list'']"
      and model = "Ref 12" and a = 13 and xs = "[Num 1, Num 2]" and ps = "[]" and v = "Num 5"
      and pr = "Ref 4" and hs = engine
      and h = "realm @ [Object Obj [(''list'', Data (Ref 13) True)] (Ref 0),
                Object (Arr [Num 1, Num 2]) [] (Ref 4)]"]
    empty_final_step [where p = "''list.''" and separator = "''.''" and pp = "[''list'']"
      and model = "Ref 12" and a = 13 and xs = "[Num 1, Num 2, Num 3]" and ps = "[]" and v = "Num 5"
      and pr = "Ref 4" and hs = engine
      and h = "realm @ [Object Obj [(''list'', Data (Ref 13) True)] (Ref 0),
                      Object (Arr [Num 1, Num 2, Num 3]) [] (Ref 4)]"]
  by (simp add: js_split_def js_replace_def realm_def engine_def builtin_push_def
      builtin_slice_def callable_def deref_def from_proto_def array_index_def is_digit_def)

text \<open>
  C5 as stated fails for the read: the last element of \<^verbatim>\<open>[1, 0]\<close> is \<^verbatim>\<open>0\<close>, and
  \<^verbatim>\<open>getValue('list.', {list: [1, 0]})\<close> returns \<^verbatim>\<open>null\<close>, not that element.
\<close>

theorem falsy_last_element_counterexample:
  "resolve engine (realm @ [Object Obj [(''list'', Data (Ref 13) True)] (Ref 0),
                            Object (Arr [Num 1, Num 0]) [] (Ref 4)]) (Ref 12) [''list'', '''']
     = Some (Num 0)
   \<and> fst (getValue engine (Str ''list.'') (Ref 12) default_separator
            (realm @ [Object Obj [(''list'', Data (Ref 13) True)] (Ref 0),
                      Object (Arr [Num 1, Num 0]) [] (Ref 4)])) = Inr Null
   \<and> Null \<noteq> last [Num 1, Num 0]"
  by (simp add: ev builtin_slice_def)

section \<open>Writing into fresh containers, and reading back\<close>

lemma not_isArrayKey_length [simp]: "\<not> isArrayKey ''length''"
  by (simp add: isArrayKey_def parseInt_def is_space_def is_digit_def)

lemma isArrayKey_not_length: "isArrayKey k \<Longrightarrow> k \<noteq> ''length''"
  by auto

lemma lookup_fresh:
  assumes "a < length h" and "empty_for hs k (h ! a)" and "not_inherited hs h k"
  shows "lookup hs h (Ref a) k = None"
  using assms
  by (auto simp: empty_for_def not_inherited_def deref_def from_proto_def
      dest: isArrayKey_not_length split: option.splits)

lemma own_slot_define_own:
  assumes "a < length h" and "k \<noteq> ''length'' \<or> \<not> is_array h a"
  shows "own_slot (snd (define_own hs h a k v) ! a) k = Some (Data v True)"
proof -
  obtain kd ps pr where o: "h ! a = Object kd ps pr" by (cases "h ! a")
  show ?thesis
    using assms o
    by (cases kd)
      (auto simp: define_own_def deref_def is_array_def store_at_nth store_at_length update_conv'
        split: option.splits)
qed

lemma get_define_own:
  assumes "a < length h" and "k \<noteq> ''length'' \<or> \<not> is_array h a"
  shows "get_prop hs (snd (define_own hs h a k v)) (Ref a) k = Inr v"
  using own_slot_define_own [OF assms, of hs v] assms(1)
  by (simp add: get_prop_def deref_def define_own_length)

lemma empty_for_not_length: "empty_for hs k (h ! a) \<Longrightarrow> a < length h \<Longrightarrow> k \<noteq> ''length'' \<or> \<not> is_array h a"
  by (auto simp: empty_for_def is_array_def deref_def)

lemma set_fresh:
  assumes a: "a < length h" and e: "empty_for hs k (h ! a)" and n: "not_inherited hs h k"
  shows "fst (set_prop hs h (Ref a) k v) = Inr v"
    and "get_prop hs (snd (set_prop hs h (Ref a) k v)) (Ref a) k = Inr v"
proof -
  have s: "set_prop hs h (Ref a) k v = define_own hs h a k v"
    using lookup_fresh [OF a e n] by (simp add: set_prop_def)
  have k: "k \<noteq> ''length'' \<or> \<not> is_array h a" using e a by (rule empty_for_not_length)
  show "fst (set_prop hs h (Ref a) k v) = Inr v"
    using define_own_stored [OF a k, of hs v] s by simp
  show "get_prop hs (snd (set_prop hs h (Ref a) k v)) (Ref a) k = Inr v"
    using get_define_own [OF a k, of hs v] s by simp
qed

lemma empty_for_newContainer [simp]: "empty_for hs nk (newContainer hs (Str nk))"
  by (simp add: empty_for_def newContainer_def)

lemma not_inherited_stable:
  assumes "chain_avoids h0 (length h0) (Ref (objectPrototype hs)) a0"
    and "chain_avoids h0 (length h0) (Ref (arrayPrototype hs)) a0"
    and "length h0 \<le> length h" and "\<forall>b<length h0. b \<noteq> a0 \<longrightarrow> h ! b = h0 ! b"
  shows "not_inherited hs h k = not_inherited hs h0 k"
  using from_proto_stable [OF assms(1) assms(3) assms(4), of k]
    from_proto_stable [OF assms(2) assms(3) assms(4), of k]
  by (simp add: not_inherited_def)

lemma vivify_step:
  assumes a: "a < length h" and e: "empty_for hs k (h ! a)" and n: "not_inherited hs h k"
    and n': "not_inherited hs (h @ [newContainer hs (nextKey pp fk i)]) k"
  shows "getTargetPropToSet hs pp fk h (Ref a) k i =
           (Inr (Ref (length h)),
            snd (set_prop hs (h @ [newContainer hs (nextKey pp fk i)]) (Ref a) k (Ref (length h))))"
proof -
  let ?H = "h @ [newContainer hs (nextKey pp fk i)]"
  have g: "get_prop hs h (Ref a) k = Inr Undefined"
    using lookup_fresh [OF a e n] by (simp add: get_prop_def)
  have a': "a < length ?H" using a by simp
  have e': "empty_for hs k (?H ! a)" using a e by (simp add: nth_append)
  obtain r h1 where S: "set_prop hs ?H (Ref a) k (Ref (length h)) = (r, h1)"
    by (cases "set_prop hs ?H (Ref a) k (Ref (length h))")
  have r: "r = Inr (Ref (length h))"
    using set_fresh(1) [OF a' e' n', of "Ref (length h)"] S by simp
  show ?thesis
    unfolding getTargetPropToSet_def g
    by (simp add: S r)
qed

lemma nextKey_drop:
  assumes d: "drop i pp = k # ks" and ne: "list_all (\<lambda>k. k \<noteq> []) ks"
  shows "nextKey pp (Str fk) i = Str (hd (ks @ [fk]))"
proof (cases ks)
  case Nil
  from d have "length (drop i pp) = 1" using Nil by simp
  then have "\<not> i + 1 < length pp" by simp
  then show ?thesis using Nil by (simp add: nextKey_def)
next
  case (Cons k' ks')
  from d have d': "drop (Suc i) pp = ks"
    by (metis drop_Suc list.sel(3) tl_drop)
  then have l: "Suc i < length pp" using Cons
    by (metis drop_all list.distinct(1) not_le_imp_less)
  have "pp ! Suc i = k'" using d' Cons l
    by (metis hd_drop_conv_nth list.sel(1))
  moreover have "k' \<noteq> []" using ne Cons by simp
  ultimately show ?thesis using Cons l by (simp add: nextKey_def)
qed

lemma drop_Suc_Cons': "drop i pp = k # ks \<Longrightarrow> drop (Suc i) pp = ks"
  by (metis drop_Suc list.sel(3) tl_drop)

lemma traverse_fresh:
  assumes "list_all (\<lambda>k. k \<noteq> []) ks" and "fk \<noteq> []" and "drop i pp = ks"
    and "a < length h" and "empty_for hs (hd (ks @ [fk])) (h ! a)"
    and "chain_avoids h0 (length h0) (Ref (objectPrototype hs)) a0"
    and "chain_avoids h0 (length h0) (Ref (arrayPrototype hs)) a0"
    and "length h0 \<le> length h" and "\<forall>b<length h0. b \<noteq> a0 \<longrightarrow> h ! b = h0 ! b"
    and "a = a0 \<or> length h0 \<le> a"
    and "list_all (not_inherited hs h0) ks"
  shows "\<exists>t h1. reduce_from (getTargetPropToSet hs pp (Str fk)) i ks (Ref a) h = (Inr (Ref t), h1)
           \<and> t < length h1 \<and> empty_for hs fk (h1 ! t) \<and> length h \<le> length h1
           \<and> (\<forall>c<length h. c \<noteq> a \<longrightarrow> h1 ! c = h ! c) \<and> (t = a \<or> length h \<le> t)
           \<and> (\<forall>h2 j. length h2 = length h1 \<and> (\<forall>c. c \<noteq> t \<longrightarrow> h2 ! c = h1 ! c)
                 \<longrightarrow> reduce_from (piecesReducer hs) j ks (Ref a) h2 = (Inr (Ref t), h2))"
  using assms
proof (induction ks arbitrary: i a h)
  case Nil
  then show ?case by simp
next
  case (Cons k ks)
  let ?nk = "hd (ks @ [fk])"
  let ?b = "length h"
  let ?H = "h @ [newContainer hs (nextKey pp (Str fk) i)]"
  define h' where "h' = snd (set_prop hs ?H (Ref a) k (Ref ?b))"
  note co = Cons.prems(6) and ca = Cons.prems(7)
  have k: "k \<noteq> []" and ks: "list_all (\<lambda>k. k \<noteq> []) ks" using Cons.prems(1) by simp_all
  have e: "empty_for hs k (h ! a)" using Cons.prems(5) by simp
  have nk: "nextKey pp (Str fk) i = Str ?nk"
    using Cons.prems(3) ks by (rule nextKey_drop)
  have n0: "not_inherited hs h0 k" and ns: "list_all (not_inherited hs h0) ks"
    using Cons.prems(11) by simp_all
  have n: "not_inherited hs h k"
    using not_inherited_stable [OF co ca Cons.prems(8) Cons.prems(9)] n0 by simp
  have "\<forall>b<length h0. b \<noteq> a0 \<longrightarrow> ?H ! b = h0 ! b"
    using Cons.prems(8) Cons.prems(9) by (simp add: nth_append)
  then have n': "not_inherited hs ?H k"
    using not_inherited_stable [OF co ca, of ?H k] Cons.prems(8) n0 by simp
  have step: "getTargetPropToSet hs pp (Str fk) h (Ref a) k i = (Inr (Ref ?b), h')"
    unfolding h'_def using Cons.prems(4) e n n' by (rule vivify_step)
  have a': "a < length ?H" using Cons.prems(4) by simp
  have e': "empty_for hs k (?H ! a)" using Cons.prems(4) e by (simp add: nth_append)
  have len: "length h' = Suc (length h)" by (simp add: h'_def set_prop_length)
  have ab: "a \<noteq> ?b" using Cons.prems(4) by simp
  have hb: "h' ! ?b = newContainer hs (Str ?nk)"
    using ab by (simp add: h'_def set_prop_other nk)
  have other: "\<forall>c<length h. c \<noteq> a \<longrightarrow> h' ! c = h ! c"
    by (simp add: h'_def set_prop_other nth_append)
  have ga: "get_prop hs h' (Ref a) k = Inr (Ref ?b)"
    unfolding h'_def using a' e' n' by (rule set_fresh(2))
  have l0: "length h0 \<le> length h'" using len Cons.prems(8) by simp
  have o0: "\<forall>b<length h0. b \<noteq> a0 \<longrightarrow> h' ! b = h0 ! b"
    using other Cons.prems(8) Cons.prems(9) Cons.prems(10) by auto
  have b0: "?b = a0 \<or> length h0 \<le> ?b" using Cons.prems(8) by simp
  have eb: "empty_for hs (hd (ks @ [fk])) (h' ! ?b)" using hb by simp
  have lb: "?b < length h'" using len by simp
  from Cons.IH [of "Suc i" ?b h', OF ks Cons.prems(2) drop_Suc_Cons' [OF Cons.prems(3)]
      lb eb co ca l0 o0 b0 ns]
  obtain t h1 where
    R: "reduce_from (getTargetPropToSet hs pp (Str fk)) (Suc i) ks (Ref ?b) h' = (Inr (Ref t), h1)"
    and t: "t < length h1" and et: "empty_for hs fk (h1 ! t)" and l1: "length h' \<le> length h1"
    and fr: "\<forall>c<length h'. c \<noteq> ?b \<longrightarrow> h1 ! c = h' ! c" and tb: "t = ?b \<or> length h' \<le> t"
    and rd: "\<forall>h2 j. length h2 = length h1 \<and> (\<forall>c. c \<noteq> t \<longrightarrow> h2 ! c = h1 ! c)
                 \<longrightarrow> reduce_from (piecesReducer hs) j ks (Ref ?b) h2 = (Inr (Ref t), h2)"
    by auto
  have ta: "t \<noteq> a" using tb len Cons.prems(4) by auto
  have read: "reduce_from (piecesReducer hs) j (k # ks) (Ref a) h2 = (Inr (Ref t), h2)"
    if h2: "length h2 = length h1" "\<forall>c. c \<noteq> t \<longrightarrow> h2 ! c = h1 ! c" for h2 j
  proof -
    have h2a: "h2 ! a = h' ! a" using h2 ta fr ab Cons.prems(4) len by simp
    have al: "a < length h2" "a < length h'" using h2 l1 len Cons.prems(4) by simp_all
    have "own_slot (h' ! a) k = Some (Data (Ref ?b) True)"
      unfolding h'_def
      using own_slot_define_own [OF a' empty_for_not_length [OF e' a'], where hs = hs and v = "Ref ?b"]
        lookup_fresh [OF a' e' n']
      by (simp add: set_prop_def)
    then have "get_prop hs h2 (Ref a) k = Inr (Ref ?b)"
      using h2a al by (simp add: get_prop_def deref_def)
    then show ?thesis using rd h2 k by (simp add: piecesReducer_key)
  qed
  have "reduce_from (getTargetPropToSet hs pp (Str fk)) i (k # ks) (Ref a) h = (Inr (Ref t), h1)"
    using step R by simp
  moreover have "length h \<le> length h1" using l1 len by simp
  moreover have "\<forall>c<length h. c \<noteq> a \<longrightarrow> h1 ! c = h ! c" using fr other len by simp
  moreover have "t = a \<or> length h \<le> t" using tb len by auto
  ultimately show ?case using t et read by blast
qed

lemma write_then_read:
  assumes g: "generatePathPieces path sep = Inr pieces" and ne: "pieces \<noteq> []"
    and al: "list_all (\<lambda>k. k \<noteq> []) pieces" and a: "a < length h"
    and m: "h ! a = Object Obj [] (Ref (objectPrototype hs))"
    and co: "chain_avoids h (length h) (Ref (objectPrototype hs)) a"
    and ca: "chain_avoids h (length h) (Ref (arrayPrototype hs)) a"
    and ni: "list_all (not_inherited hs h) pieces"
  shows "\<exists>h2. setValue_try hs path v (Ref a) sep h = (Inr v, h2)
           \<and> reduce (piecesReducer hs) pieces (Ref a) h2 = (Inr v, h2)"
proof -
  define pp where "pp = butlast pieces"
  define fk where "fk = last pieces"
  have pieces: "pieces = pp @ [fk]" using ne by (simp add: pp_def fk_def)
  have fk: "fk \<noteq> []" and pp: "list_all (\<lambda>k. k \<noteq> []) pp" using al pieces by simp_all
  have nf: "not_inherited hs h fk" and np: "list_all (not_inherited hs h) pp"
    using ni pieces by simp_all
  have "empty_for hs (hd (pp @ [fk])) (h ! a)" using m by (simp add: empty_for_def)
  from traverse_fresh [OF pp fk _ a this co ca _ _ _ np, of 0 pp]
  obtain t h1 where
    R: "reduce_from (getTargetPropToSet hs pp (Str fk)) 0 pp (Ref a) h = (Inr (Ref t), h1)"
    and t: "t < length h1" and et: "empty_for hs fk (h1 ! t)" and l1: "length h \<le> length h1"
    and fr: "\<forall>c<length h. c \<noteq> a \<longrightarrow> h1 ! c = h ! c" and ta: "t = a \<or> length h \<le> t"
    and rd: "\<And>h2 j. length h2 = length h1 \<Longrightarrow> (\<forall>c. c \<noteq> t \<longrightarrow> h2 ! c = h1 ! c)
                 \<Longrightarrow> reduce_from (piecesReducer hs) j pp (Ref a) h2 = (Inr (Ref t), h2)"
    by auto
  have n1: "not_inherited hs h1 fk"
    using not_inherited_stable [OF co ca l1 fr] nf by simp
  define h2 where "h2 = snd (set_prop hs h1 (Ref t) fk v)"
  have w: "set_prop hs h1 (Ref t) fk v = (Inr v, h2)"
    using set_fresh(1) [OF t et n1, of v] by (simp add: h2_def prod_eq_iff)
  have l2: "length h2 = length h1" by (simp add: h2_def set_prop_length)
  have o2: "\<forall>c. c \<noteq> t \<longrightarrow> h2 ! c = h1 ! c" by (simp add: h2_def set_prop_other)
  have g2: "get_prop hs h2 (Ref t) fk = Inr v" unfolding h2_def using t et n1 by (rule set_fresh(2))
  have "setValue_try hs path v (Ref a) sep h = (Inr v, h2)"
    using g R w fk by (simp add: setValue_try_def reduce_def pieces)
  moreover have "reduce (piecesReducer hs) pieces (Ref a) h2 = (Inr v, h2)"
    using rd [OF l2 o2] g2 fk by (simp add: reduce_def pieces reduce_from_append piecesReducer_key)
  ultimately show ?thesis by auto
qed

lemma split_from_not_Nil: "split_from sep skip cur s \<noteq> []"
  by (induction s arbitrary: skip cur) auto

lemma js_split_not_Nil: "sep \<noteq> [] \<Longrightarrow> js_split s sep \<noteq> []"
  by (simp add: js_split_def split_from_not_Nil)

text \<open>
  C1 (amended).  Round trip: for a path all of whose steps (with the default separator) are
  non-empty and name nothing that a new object or array inherits, and a truthy value \<open>v\<close>,
  \<^verbatim>\<open>setValue(p, v, m)\<close> on the empty object \<open>m\<close> returns normally, logs nothing, and
  \<^verbatim>\<open>getValue(p, m)\<close> in the resulting store returns exactly \<open>v\<close>.  The model \<open>m\<close> is
  \<^verbatim>\<open>{}\<close>, an object without properties whose prototype is \<^verbatim>\<open>Object.prototype\<close>, and it
  is not itself on the prototype chain of \<^verbatim>\<open>Object.prototype\<close> or \<^verbatim>\<open>Array.prototype\<close>.
\<close>

theorem roundtrip_set_get:
  assumes g: "generatePathPieces (Str p) default_separator = Inr pieces"
    and al: "list_all (\<lambda>k. k \<noteq> []) pieces"
    and v: "truthy v" and a: "a < length h"
    and m: "h ! a = Object Obj [] (Ref (objectPrototype hs))"
    and co: "chain_avoids h (length h) (Ref (objectPrototype hs)) a"
    and ca: "chain_avoids h (length h) (Ref (arrayPrototype hs)) a"
    and ni: "list_all (not_inherited hs h) pieces"
  shows "\<exists>h'. setValue hs (Str p) v (Ref a) default_separator h = (Inr Undefined, h', [])
           \<and> getValue hs (Str p) (Ref a) default_separator h' = (Inr v, h')"
proof -
  have ne: "pieces \<noteq> []"
    using g by (auto simp: default_separator_def js_split_not_Nil)
  have p: "p \<noteq> []"
    using g al by (auto simp: default_separator_def js_split_def js_replace_def)
  from write_then_read [OF g ne al a m co ca ni, of v]
  obtain h2 where w: "setValue_try hs (Str p) v (Ref a) default_separator h = (Inr v, h2)"
    and r: "reduce (piecesReducer hs) pieces (Ref a) h2 = (Inr v, h2)"
    by blast
  have "setValue hs (Str p) v (Ref a) default_separator h = (Inr Undefined, h2, [])"
    using w p by (simp add: setValue_def)
  moreover have "getValue hs (Str p) (Ref a) default_separator h2 = (Inr v, h2)"
    using g r v by (simp add: getValue_def getValue_try_def)
  ultimately show ?thesis by blast
qed

theorem roundtrip_set_get_witness:
  "\<exists>h'. setValue engine (Str ''a.0.b'') (Str ''x'') (Ref 12) default_separator
            (realm @ [Object Obj [] (Ref 0)])
            = (Inr Undefined, h', [])
        \<and> getValue engine (Str ''a.0.b'') (Ref 12) default_separator h' = (Inr (Str ''x''), h')"
  using roundtrip_set_get [where p = "''a.0.b''" and pieces = "[''a'', ''0'', ''b'']"
      and v = "Str ''x''" and a = 12 and h = "realm @ [Object Obj [] (Ref 0)]" and hs = engine]
  by (simp add: default_separator_def js_split_def js_replace_def realm_def engine_def
      not_inherited_def from_proto_def array_index_def is_digit_def decimal_def isArrayKey_def
      parseInt_def is_space_def)

text \<open>
  C1 as stated fails for steps that name inherited properties.  The path \<^verbatim>\<open>__proto__\<close> has
  one non-empty step and \<^verbatim>\<open>'x'\<close> is truthy, but the assignment goes to the inherited
  setter, which ignores a primitive: \<^verbatim>\<open>setValue\<close> stores nothing and logs nothing, and
  \<^verbatim>\<open>getValue\<close> returns \<^verbatim>\<open>Object.prototype\<close>.  With \<^verbatim>\<open>constructor.name\<close> the traversal
  enters the inherited function \<^verbatim>\<open>Object\<close>, whose \<^verbatim>\<open>name\<close> is not writable: the
  assignment throws, the error is logged, and \<^verbatim>\<open>getValue\<close> returns \<^verbatim>\<open>'Object'\<close>.
\<close>

theorem inherited_key_counterexample:
  "generatePathPieces (Str ''__proto__'') default_separator = Inr [''__proto__'']
   \<and> truthy (Str ''x'')
   \<and> setValue engine (Str ''__proto__'') (Str ''x'') (Ref 12) default_separator
        (realm @ [Object Obj [] (Ref 0)])
       = (Inr Undefined, realm @ [Object Obj [] (Ref 0)], [])
   \<and> getValue engine (Str ''__proto__'') (Ref 12) default_separator
        (realm @ [Object Obj [] (Ref 0)])
       = (Inr (Ref 0), realm @ [Object Obj [] (Ref 0)])
   \<and> Ref 0 \<noteq> Str ''x''
   \<and> generatePathPieces (Str ''constructor.name'') default_separator
       = Inr [''constructor'', ''name'']
   \<and> setValue engine (Str ''constructor.name'') (Str ''x'') (Ref 12) default_separator
        (realm @ [Object Obj [] (Ref 0)])
       = (Inr Undefined, realm @ [Object Obj [] (Ref 0)], [TypeError])
   \<and> getValue engine (Str ''constructor.name'') (Ref 12) default_separator
        (realm @ [Object Obj [] (Ref 0)])
       = (Inr (Str ''Object''), realm @ [Object Obj [] (Ref 0)])
   \<and> Str ''Object'' \<noteq> Str ''x''"
  by (simp add: ev)

section \<open>Array indices name distinct elements\<close>

lemma decimal_snoc: "decimal (ds @ [c]) = 10 * decimal ds + ((of_char c :: nat) - 48)"
  by (simp add: decimal_def)

lemma digit_inj:
  assumes "is_digit c" and "is_digit d" and "(of_char c :: nat) - 48 = of_char d - 48"
  shows "c = d"
proof -
  have "(of_char c :: nat) = of_char d"
    using assms unfolding is_digit_def by linarith
  then show ?thesis by (simp only: of_char_eq_iff)
qed

lemma digit_less_10: "is_digit c \<Longrightarrow> (of_char c :: nat) - 48 < 10"
  unfolding is_digit_def by linarith

lemma nonzero_digit:
  assumes "is_digit c" and "c \<noteq> CHR ''0''"
  shows "0 < (of_char c :: nat) - 48"
proof -
  have "(of_char c :: nat) \<noteq> 48"
  proof
    assume "(of_char c :: nat) = 48"
    then have "(of_char c :: nat) = of_char CHR ''0''" by simp
    then have "c = CHR ''0''" by (simp only: of_char_eq_iff)
    then show False using assms(2) by simp
  qed
  then show ?thesis using assms(1) unfolding is_digit_def by linarith
qed

lemma foldl_decimal_ge: "n \<le> foldl (\<lambda>n c. 10 * n + ((of_char c :: nat) - 48)) n cs"
proof (induction cs arbitrary: n)
  case Nil
  then show ?case by simp
next
  case (Cons c cs)
  have "n \<le> 10 * n + ((of_char c :: nat) - 48)" by simp
  also have "\<dots> \<le> foldl (\<lambda>n c. 10 * n + ((of_char c :: nat) - 48)) (10 * n + ((of_char c :: nat) - 48)) cs"
    by (rule Cons.IH)
  finally show ?case by simp
qed

lemma decimal_pos:
  assumes "list_all is_digit ds" and "ds \<noteq> []" and "hd ds \<noteq> CHR ''0''"
  shows "0 < decimal ds"
proof -
  obtain c cs where ds: "ds = c # cs" using assms(2) by (cases ds) auto
  have "is_digit c" and "c \<noteq> CHR ''0''" using assms ds by simp_all
  then have "0 < (of_char c :: nat) - 48" by (rule nonzero_digit)
  also have "\<dots> \<le> decimal ds"
    using foldl_decimal_ge [of "(of_char c :: nat) - 48" cs] by (simp add: decimal_def ds)
  finally show ?thesis .
qed

lemma decimal_inj:
  assumes "list_all is_digit ds" and "list_all is_digit es"
    and "ds = [] \<or> hd ds \<noteq> CHR ''0''" and "es = [] \<or> hd es \<noteq> CHR ''0''"
    and "decimal ds = decimal es"
  shows "ds = es"
  using assms
proof (induction ds arbitrary: es rule: rev_induct)
  case Nil
  show ?case
  proof (cases "es = []")
    case True
    then show ?thesis by simp
  next
    case False
    then have "0 < decimal es" using Nil.prems by (simp add: decimal_pos)
    then show ?thesis using Nil.prems by (simp add: decimal_def)
  qed
next
  case (snoc c ds)
  have pos: "0 < decimal (ds @ [c])"
    using snoc.prems by (intro decimal_pos) auto
  show ?case
  proof (cases es rule: rev_cases)
    case Nil
    then show ?thesis using pos snoc.prems by (simp add: decimal_def)
  next
    case (snoc es' d)
    have c: "is_digit c" and d: "is_digit d" using snoc.prems \<open>es = es' @ [d]\<close> by simp_all
    have eq: "10 * decimal ds + ((of_char c :: nat) - 48) = 10 * decimal es' + ((of_char d :: nat) - 48)"
      using snoc.prems(5) \<open>es = es' @ [d]\<close> by (simp add: decimal_snoc)
    have lc: "(of_char c :: nat) - 48 < 10" and ld: "(of_char d :: nat) - 48 < 10"
      using c d by (simp_all add: digit_less_10)
    have e1: "decimal ds = decimal es'"
      using eq lc ld by presburger
    have e2: "(of_char c :: nat) - 48 = of_char d - 48"
      using eq e1 by simp
    have cd: "c = d" using c d e2 by (rule digit_inj)
    have "ds = es'"
    proof (rule snoc.IH)
      show "list_all is_digit ds" using snoc.prems by simp
      show "list_all is_digit es'" using snoc.prems \<open>es = es' @ [d]\<close> by simp
      show "ds = [] \<or> hd ds \<noteq> CHR ''0''" using snoc.prems(3) by (cases ds) auto
      show "es' = [] \<or> hd es' \<noteq> CHR ''0''"
        using snoc.prems(4) \<open>es = es' @ [d]\<close> by (cases es') auto
      show "decimal ds = decimal es'" by (rule e1)
    qed
    then show ?thesis using cd \<open>es = es' @ [d]\<close> by simp
  qed
qed

lemma array_index_inj:
  assumes "array_index k = Some i" and "array_index k' = Some i"
  shows "k = k'"
proof -
  have k: "list_all is_digit k" "k \<noteq> []" "k = ''0'' \<or> hd k \<noteq> CHR ''0''" "decimal k = i"
    using assms(1) by (auto simp: array_index_def split: if_splits)
  have k': "list_all is_digit k'" "k' \<noteq> []" "k' = ''0'' \<or> hd k' \<noteq> CHR ''0''" "decimal k' = i"
    using assms(2) by (auto simp: array_index_def split: if_splits)
  have z: "decimal ''0'' = 0" by (simp add: decimal_def)
  show ?thesis
  proof (cases "hd k \<noteq> CHR ''0'' \<and> hd k' \<noteq> CHR ''0''")
    case True
    then show ?thesis using k k' by (intro decimal_inj) auto
  next
    case False
    then consider "k = ''0''" | "k' = ''0''" using k(3) k'(3) by auto
    then show ?thesis
    proof cases
      case 1
      then have "decimal k' = 0" using k(4) k'(4) z by simp
      then have "hd k' = CHR ''0''" using decimal_pos [OF k'(1) k'(2)] by auto
      then show ?thesis using 1 k'(3) by auto
    next
      case 2
      then have "decimal k = 0" using k(4) k'(4) z by simp
      then have "hd k = CHR ''0''" using decimal_pos [OF k(1) k(2)] by auto
      then show ?thesis using 2 k(3) by auto
    qed
  qed
qed

section \<open>What a write leaves alone\<close>

lemma stored_cong2:
  assumes "kind_of (deref h2 a) = kind_of (deref h a)"
    and "props_of (deref h2 a) = props_of (deref h a)"
  shows "stored h2 a k = stored h a k"
  unfolding stored_def assms ..

lemma stored_cong: "deref h2 a = deref h a \<Longrightarrow> stored h2 a k = stored h a k"
  by (rule stored_cong2) simp_all

lemma deref_append: "a < length h \<Longrightarrow> deref (h @ ext) a = deref h a"
  by (simp add: deref_def nth_append)

lemma deref_update_other: "a \<noteq> b \<Longrightarrow> deref (h[b := ob]) a = deref h a"
  by (simp add: deref_def)

lemma deref_update_same: "a < length h \<Longrightarrow> deref (h[a := ob]) a = ob"
  by (simp add: deref_def)

lemma deref_same:
  assumes "length h2 = length h" and "h2 ! a = h ! a"
  shows "deref h2 a = deref h a"
  using assms by (simp add: deref_def)

lemma define_own_beyond: "\<not> b < length h \<Longrightarrow> snd (define_own hs h b key v) = h"
  by (auto simp: define_own_def list_update_beyond not_less
      split: jsobj.splits kind.splits option.splits sum.splits)

lemma store_at_read:
  "j \<noteq> i \<Longrightarrow> (if j < length (store_at i v xs) then store_at i v xs ! j else Undefined)
              = (if j < length xs then xs ! j else Undefined)"
  by (auto simp: store_at_def nth_append nth_Cons')

lemma define_own_changes:
  assumes c: "stored (snd (define_own hs h b key v)) a k \<noteq> stored h a k"
  shows "a = b \<and> (k = key \<or> (key = ''length'' \<and> is_array h a))"
proof (rule ccontr)
  assume n: "\<not> (a = b \<and> (k = key \<or> (key = ''length'' \<and> is_array h a)))"
  have "stored (snd (define_own hs h b key v)) a k = stored h a k"
  proof (cases "a = b \<and> b < length h")
    case False
    have "deref (snd (define_own hs h b key v)) a = deref h a"
    proof (cases "b < length h")
      case True
      then have "a \<noteq> b" using False by simp
      then show ?thesis
        by (intro deref_same) (simp_all add: define_own_length define_own_other)
    next
      case False
      then show ?thesis by (simp add: define_own_beyond)
    qed
    then show ?thesis by (rule stored_cong)
  next
    case True
    then have ab: "a = b" and b: "b < length h" by simp_all
    have kk: "k \<noteq> key" and kl: "key \<noteq> ''length'' \<or> \<not> is_array h b" using n ab by auto
    obtain kd ps pr where o: "h ! b = Object kd ps pr" by (cases "h ! b")
    have d: "deref h b = Object kd ps pr" using b o by (simp add: deref_def)
    note same = deref_update_same [OF b]
    show ?thesis
    proof (cases kd)
      case Obj
      then show ?thesis
        using kk by (simp add: define_own_def stored_def d ab same update_conv')
    next
      case (Fn f)
      then show ?thesis
        using kk by (simp add: define_own_def stored_def d ab same update_conv')
    next
      case (Arr xs)
      then have kl': "key \<noteq> ''length''" using kl d by (simp add: is_array_def)
      show ?thesis
      proof (cases "array_index key")
        case None
        then show ?thesis
          using kk kl' Arr
          by (simp add: define_own_def stored_def d ab same update_conv' split: option.splits)
      next
        case (Some i)
        show ?thesis
        proof (cases "array_index k")
          case None
          then show ?thesis
            using Some kl' Arr by (simp add: define_own_def stored_def d ab same)
        next
          case (Some j)
          have "j \<noteq> i"
            using array_index_inj [OF Some, of key] \<open>array_index key = Some i\<close> kk by auto
          then show ?thesis
            using Some \<open>array_index key = Some i\<close> kl' Arr store_at_read [of j i v xs]
            by (simp add: define_own_def stored_def d ab same)
        qed
      qed
    qed
  qed
  then show False using c by simp
qed

lemma set_proto_stored: "stored (snd (set_proto hs h ob v)) a k = stored h a k"
proof (rule stored_cong2)
  show "kind_of (deref (snd (set_proto hs h ob v)) a) = kind_of (deref h a)"
    by (cases ob; cases "a < length h")
      (auto simp: set_proto_def deref_def nth_list_update)
  show "props_of (deref (snd (set_proto hs h ob v)) a) = props_of (deref h a)"
    by (cases ob; cases "a < length h")
      (auto simp: set_proto_def deref_def nth_list_update)
qed

lemma set_prop_cases:
  "snd (set_prop hs h ob key v) = h
   \<or> snd (set_prop hs h ob key v) = snd (set_proto hs h ob v)
   \<or> (\<exists>b. ob = Ref b \<and> set_prop hs h ob key v = define_own hs h b key v)"
  by (cases ob) (auto simp: set_prop_def split: option.splits slot.splits bool.splits)

lemma set_prop_changes:
  assumes c: "stored (snd (set_prop hs h ob key v)) a k \<noteq> stored h a k"
  shows "ob = Ref a \<and> (k = key \<or> (key = ''length'' \<and> is_array h a))"
proof -
  consider "snd (set_prop hs h ob key v) = h"
    | "snd (set_prop hs h ob key v) = snd (set_proto hs h ob v)"
    | b where "ob = Ref b" "set_prop hs h ob key v = define_own hs h b key v"
    using set_prop_cases [of hs h ob key v] by blast
  then show ?thesis
  proof cases
    case 1
    then show ?thesis using c by simp
  next
    case 2
    then show ?thesis using c by (simp add: set_proto_stored)
  next
    case 3
    then show ?thesis using c define_own_changes [of hs h b key v a k] by auto
  qed
qed

lemma resize_empty_stored:
  assumes "is_array h a" and "elements h a = []"
  shows "stored (snd (define_own hs h a ''length'' v)) b k = stored h b k"
proof (cases "b = a")
  case False
  have "deref (snd (define_own hs h a ''length'' v)) b = deref h b"
  proof (cases "a < length h")
    case True
    then show ?thesis
      using False by (intro deref_same) (simp_all add: define_own_length define_own_other)
  next
    case False
    then show ?thesis by (simp add: define_own_beyond)
  qed
  then show ?thesis by (rule stored_cong)
next
  case True
  have a: "a < length h" using assms(1) by (auto simp: is_array_def deref_def split: if_splits)
  obtain kd ps pr where o: "h ! a = Object kd ps pr" by (cases "h ! a")
  have d: "deref h a = Object kd ps pr" using a o by (simp add: deref_def)
  have kd: "kd = Arr []" using assms d by (cases kd) (simp_all add: is_array_def elements_def)
  show ?thesis
    using True kd
    by (cases "to_length hs h v")
      (simp_all add: define_own_def stored_def d deref_update_same [OF a] resize_def
        split: option.splits)
qed

lemma set_length_empty:
  assumes "is_array h a" and "elements h a = []"
  shows "stored (snd (set_prop hs h (Ref a) ''length'' v)) b k = stored h b k"
proof -
  consider "snd (set_prop hs h (Ref a) ''length'' v) = h"
    | "snd (set_prop hs h (Ref a) ''length'' v) = snd (set_proto hs h (Ref a) v)"
    | "set_prop hs h (Ref a) ''length'' v = define_own hs h a ''length'' v"
    using set_prop_cases [of hs h "Ref a" "''length''" v] by auto
  then show ?thesis
  proof cases
    case 1
    then show ?thesis by simp
  next
    case 2
    then show ?thesis by (simp add: set_proto_stored)
  next
    case 3
    then show ?thesis using resize_empty_stored [OF assms, of hs v b k] by simp
  qed
qed

lemma stored_newContainer: "stored (h @ [newContainer hs nk]) a k = stored h a k"
proof (cases "a < length h")
  case True
  then show ?thesis by (intro stored_cong deref_append)
next
  case False
  then show ?thesis
    by (cases "a = length h")
      (auto simp: stored_def deref_def newContainer_def split: jsval.splits option.splits)
qed

lemma attach_changes:
  assumes g: "get_prop hs h ob key = Inr cur" and f: "\<not> truthy cur"
    and c: "stored (snd (set_prop hs (h @ [newContainer hs nk]) ob key v)) a k \<noteq> stored h a k"
  shows "ob = Ref a \<and> k = key"
proof -
  let ?H = "h @ [newContainer hs nk]"
  have c': "stored (snd (set_prop hs ?H ob key v)) a k \<noteq> stored ?H a k"
    using c by (simp add: stored_newContainer)
  then have ob: "ob = Ref a" and k: "k = key \<or> (key = ''length'' \<and> is_array ?H a)"
    using set_prop_changes [of hs ?H ob key v a k] by simp_all
  have "k = key"
  proof (rule ccontr)
    assume "k \<noteq> key"
    then have kl: "key = ''length''" and arr: "is_array ?H a" using k by simp_all
    have "elements ?H a = []"
    proof (cases "a < length h")
      case True
      obtain kd ps pr where o: "h ! a = Object kd ps pr" by (cases "h ! a")
      have d: "deref h a = Object kd ps pr" using True o by (simp add: deref_def)
      obtain xs where kd: "kd = Arr xs"
        using arr True o by (cases kd) (simp_all add: is_array_def deref_def nth_append)
      have "cur = Num (int (length xs))"
        using g ob kl d kd by (simp add: get_prop_def)
      then have "xs = []" using f by simp
      then show ?thesis using True o kd by (simp add: elements_def deref_def nth_append)
    next
      case False
      then show ?thesis
        by (cases "a = length h")
          (auto simp: elements_def deref_def newContainer_def split: jsval.splits)
    qed
    then have "stored (snd (set_prop hs ?H (Ref a) ''length'' v)) a k = stored ?H a k"
      using arr by (intro set_length_empty)
    then show False using c' ob kl by simp
  qed
  then show ?thesis using ob by simp
qed

lemma push_changes:
  assumes s: "fst (push hs h ob v) = Inr r"
    and c: "stored (snd (push hs h ob v)) a k \<noteq> stored h a k"
  shows "ob = Ref a \<and> is_array h a \<and> array_index k = Some (length (elements h a))"
proof -
  from s obtain b where ob: "ob = Ref b" and p: "push hs h ob v = array_push hs h b v"
    by (cases ob) (auto simp: push_def split: sum.splits option.splits builtin.splits)
  from s p obtain xs ps pr where d: "deref h b = Object (Arr xs) ps pr"
    and l: "length xs < 4294967295"
    and w: "array_push hs h b v = (Inr (Num (int (length xs) + 1)), h[b := Object (Arr (xs @ [v])) ps pr])"
    by (cases "deref h b")
      (auto simp: array_push_def split: kind.splits prod.splits sum.splits if_splits)
  have b: "b < length h" using d by (auto simp: deref_def split: if_splits)
  have ab: "a = b"
  proof (rule ccontr)
    assume "a \<noteq> b"
    then have "deref (snd (push hs h ob v)) a = deref h a"
      using p w by (simp add: deref_update_other)
    then show False using c stored_cong by blast
  qed
  have arr: "is_array h a" using d ab by (simp add: is_array_def)
  have el: "elements h a = xs" using d ab by (simp add: elements_def)
  have "array_index k = Some (length xs)"
    using c p w ab d
    by (cases "array_index k")
      (auto simp: stored_def deref_update_same [OF b] nth_append split: if_splits)
  then show ?thesis using ob ab arr el by simp
qed

lemma traversal_frame:
  assumes "reduce_from (getTargetPropToSet hs pp fk) i ks acc h = (Inr target, ht)"
    and "stored ht a k \<noteq> stored h a k"
  shows "(Ref a, k) \<in> set (attached hs pp fk i ks acc h)"
  using assms
proof (induction ks arbitrary: i acc h)
  case Nil
  then show ?case by simp
next
  case (Cons key ks)
  obtain r h1 where st: "getTargetPropToSet hs pp fk h acc key i = (r, h1)"
    by (cases "getTargetPropToSet hs pp fk h acc key i")
  obtain x where r: "r = Inr x" using Cons.prems(1) st by (cases r) auto
  have rest: "reduce_from (getTargetPropToSet hs pp fk) (Suc i) ks x h1 = (Inr target, ht)"
    using Cons.prems(1) st r by simp
  obtain cur where g: "get_prop hs h acc key = Inr cur"
    using st r by (cases "get_prop hs h acc key") (auto simp: getTargetPropToSet_def)
  have att: "attached hs pp fk i (key # ks) acc h
               = (if truthy cur then [] else [(acc, key)]) @ attached hs pp fk (Suc i) ks x h1"
    using g st r by simp
  show ?case
  proof (cases "stored ht a k = stored h1 a k")
    case False
    then have "(Ref a, k) \<in> set (attached hs pp fk (Suc i) ks x h1)"
      using Cons.IH [OF rest] by simp
    then show ?thesis using att by simp
  next
    case True
    then have ch: "stored h1 a k \<noteq> stored h a k" using Cons.prems(2) by simp
    have f: "\<not> truthy cur"
      using ch st g by (auto simp: getTargetPropToSet_def)
    have "h1 = snd (set_prop hs (h @ [newContainer hs (nextKey pp fk i)]) acc key (Ref (length h)))"
      using st g f by (auto simp: getTargetPropToSet_def split: prod.splits sum.splits)
    then have "acc = Ref a \<and> k = key"
      using attach_changes [OF g f, of "nextKey pp fk i" "Ref (length h)" a k] ch by simp
    then show ?thesis using att f by simp
  qed
qed

lemma final_write:
  assumes g: "generatePathPieces path separator = Inr pieces"
    and fk: "finalKey = (if pieces = [] then Undefined else Str (last pieces))"
    and tr: "reduce (getTargetPropToSet hs (butlast pieces) finalKey) (butlast pieces) model h
               = (Inr target, ht)"
    and s: "setValue hs path v model separator h = (r, hw, [])"
    and p: "truthy path" and m: "truthy model"
  shows "\<exists>x. (if finalKey = Str '''' then push hs ht target v
              else set_prop hs ht target (to_key finalKey) v) = (Inr x, hw)"
proof -
  let ?w = "\<lambda>t. if finalKey = Str '''' then push hs ht t v
              else set_prop hs ht t (to_key finalKey) v"
  have t: "setValue_try hs path v model separator h
             = ?w (if truthy target then target else Null)"
    using g tr fk by (simp add: setValue_try_def Let_def)
  obtain x where x: "setValue_try hs path v model separator h = (Inr x, hw)"
    using s p m by (auto simp: setValue_def split: prod.splits sum.splits)
  have "truthy target"
  proof (rule ccontr)
    assume "\<not> truthy target"
    then have "setValue_try hs path v model separator h = ?w Null" using t by simp
    then show False using x by (simp add: push_def get_prop_def set_prop_def split: if_splits)
  qed
  then have "?w target = (Inr x, hw)" using t x by simp
  then show ?thesis by blast
qed

lemma define_own_proto: "proto_of (deref (snd (define_own hs h b key v)) a) = proto_of (deref h a)"
proof (cases "a = b \<and> b < length h")
  case True
  obtain kd ps pr where o: "h ! b = Object kd ps pr" by (cases "h ! b")
  show ?thesis
    using True o
    by (cases kd)
      (auto simp: define_own_def deref_def split: option.splits sum.splits)
next
  case False
  have "deref (snd (define_own hs h b key v)) a = deref h a"
  proof (cases "b < length h")
    case True
    then have "a \<noteq> b" using False by simp
    then show ?thesis
      by (intro deref_same) (simp_all add: define_own_length define_own_other)
  next
    case False
    then show ?thesis by (simp add: define_own_beyond)
  qed
  then show ?thesis by simp
qed

lemma set_prop_proto:
  assumes "proto_of (deref (snd (set_prop hs h ob key v)) a) \<noteq> proto_of (deref h a)"
  shows "ob = Ref a \<and> lookup hs h ob key = Some ProtoAccessor"
proof (cases "lookup hs h ob key = Some ProtoAccessor")
  case True
  have "ob = Ref a"
  proof (rule ccontr)
    assume n: "ob \<noteq> Ref a"
    have "deref (snd (set_prop hs h ob key v)) a = deref h a"
      by (intro deref_same) (simp_all add: set_prop_length set_prop_other [OF n])
    then show False using assms by simp
  qed
  then show ?thesis using True by simp
next
  case False
  then have "snd (set_prop hs h ob key v) = h
      \<or> (\<exists>b. ob = Ref b \<and> set_prop hs h ob key v = define_own hs h b key v)"
    by (cases ob) (auto simp: set_prop_def split: option.splits slot.splits bool.splits)
  then show ?thesis using assms by (auto simp: define_own_proto)
qed

lemma push_success:
  assumes s: "fst (push hs h ob v) = Inr r"
  shows "\<exists>b xs ps pr. ob = Ref b \<and> b < length h \<and> h ! b = Object (Arr xs) ps pr
           \<and> snd (push hs h ob v) = h[b := Object (Arr (xs @ [v])) ps pr]"
proof -
  from s obtain b where ob: "ob = Ref b" and p: "push hs h ob v = array_push hs h b v"
    by (cases ob) (auto simp: push_def split: sum.splits option.splits builtin.splits)
  from s p obtain xs ps pr where d: "deref h b = Object (Arr xs) ps pr"
    and w: "array_push hs h b v = (Inr (Num (int (length xs) + 1)), h[b := Object (Arr (xs @ [v])) ps pr])"
    by (cases "deref h b")
      (auto simp: array_push_def split: kind.splits prod.splits sum.splits if_splits)
  have b: "b < length h" using d by (auto simp: deref_def split: if_splits)
  then have "h ! b = Object (Arr xs) ps pr" using d by (simp add: deref_def)
  then show ?thesis using ob b p w by simp
qed

lemma push_proto:
  assumes "fst (push hs h ob v) = Inr r"
  shows "proto_of (deref (snd (push hs h ob v)) a) = proto_of (deref h a)"
proof -
  from push_success [OF assms] obtain b xs ps pr where
    b: "b < length h" and o: "h ! b = Object (Arr xs) ps pr"
    and w: "snd (push hs h ob v) = h[b := Object (Arr (xs @ [v])) ps pr]"
    by blast
  show ?thesis using b o w by (cases "a = b") (simp_all add: deref_def)
qed

lemma push_kept:
  assumes "fst (push hs h ob v) = Inr r"
  shows "\<exists>t. ob = Ref t \<and> is_array h t \<and> elements (snd (push hs h ob v)) t = elements h t @ [v]"
proof -
  from push_success [OF assms] obtain b xs ps pr where
    ob: "ob = Ref b" and b: "b < length h" and o: "h ! b = Object (Arr xs) ps pr"
    and w: "snd (push hs h ob v) = h[b := Object (Arr (xs @ [v])) ps pr]"
    by blast
  show ?thesis using ob b o w by (simp add: is_array_def elements_def deref_def)
qed

lemma set_prop_kept:
  assumes s: "fst (set_prop hs h target key v) = Inr x"
    and o: "ordinary_key hs h target key" and vt: "valid_ref h target"
  shows "\<exists>t. target = Ref t \<and> get_prop hs (snd (set_prop hs h target key v)) target key = Inr v
           \<and> stored (snd (set_prop hs h target key v)) t key = v"
proof -
  have na: "lookup hs h target key \<noteq> Some ProtoAccessor" using o by (simp add: ordinary_key_def)
  from s na obtain t where t: "target = Ref t"
    and d: "set_prop hs h target key v = define_own hs h t key v"
    by (cases target) (auto simp: set_prop_def split: option.splits slot.splits bool.splits if_splits)
  have tl: "t < length h" using vt t by (simp add: valid_ref_def)
  have k: "key \<noteq> ''length'' \<or> \<not> is_array h t" using o t by (simp add: ordinary_key_def)
  show ?thesis
    using t d get_define_own [OF tl k, of hs v] define_own_stored [OF tl k, of hs v] by simp
qed

lemma traversal_proto:
  assumes "reduce_from (getTargetPropToSet hs pp fk) i ks acc h = (Inr target, ht)"
    and "a < length h" and "proto_of (ht ! a) \<noteq> proto_of (h ! a)"
  shows "\<exists>k. (Ref a, k) \<in> set (attached hs pp fk i ks acc h)"
  using assms
proof (induction ks arbitrary: i acc h)
  case Nil
  then show ?case by simp
next
  case (Cons key ks)
  obtain r h1 where st: "getTargetPropToSet hs pp fk h acc key i = (r, h1)"
    by (cases "getTargetPropToSet hs pp fk h acc key i")
  obtain x where r: "r = Inr x" using Cons.prems(1) st by (cases r) auto
  have rest: "reduce_from (getTargetPropToSet hs pp fk) (Suc i) ks x h1 = (Inr target, ht)"
    using Cons.prems(1) st r by simp
  obtain cur where g: "get_prop hs h acc key = Inr cur"
    using st r by (cases "get_prop hs h acc key") (auto simp: getTargetPropToSet_def)
  have att: "attached hs pp fk i (key # ks) acc h
               = (if truthy cur then [] else [(acc, key)]) @ attached hs pp fk (Suc i) ks x h1"
    using g st r by simp
  let ?H = "h @ [newContainer hs (nextKey pp fk i)]"
  have h1: "h1 = (if truthy cur then h else snd (set_prop hs ?H acc key (Ref (length h))))"
    using st g by (auto simp: getTargetPropToSet_def split: prod.splits sum.splits)
  have l1: "a < length h1" using Cons.prems(2) h1 by (simp add: set_prop_length)
  show ?case
  proof (cases "proto_of (ht ! a) = proto_of (h1 ! a)")
    case False
    then have "\<exists>k. (Ref a, k) \<in> set (attached hs pp fk (Suc i) ks x h1)"
      using Cons.IH [OF rest l1] by simp
    then show ?thesis using att by auto
  next
    case True
    then have ch: "proto_of (h1 ! a) \<noteq> proto_of (h ! a)" using Cons.prems(3) by simp
    then have f: "\<not> truthy cur" using h1 by auto
    have "proto_of (deref (snd (set_prop hs ?H acc key (Ref (length h)))) a)
            \<noteq> proto_of (deref ?H a)"
      using ch h1 f Cons.prems(2) by (simp add: deref_def set_prop_length nth_append)
    then have "acc = Ref a" using set_prop_proto by blast
    then show ?thesis using att f by auto
  qed
qed

lemma traversal_length:
  "reduce_from (getTargetPropToSet hs pp fk) i ks acc h = (r, ht) \<Longrightarrow> length h \<le> length ht"
proof (induction ks arbitrary: i acc h)
  case Nil
  then show ?case by simp
next
  case (Cons key ks)
  obtain r1 h1 where st: "getTargetPropToSet hs pp fk h acc key i = (r1, h1)"
    by (cases "getTargetPropToSet hs pp fk h acc key i")
  have l: "length h \<le> length h1"
    using st
    by (auto simp: getTargetPropToSet_def set_prop_length split: sum.splits prod.splits if_splits
        dest!: arg_cong [where f = "\<lambda>x. length (snd x)"])
  show ?case
  proof (cases r1)
    case (Inl e)
    then show ?thesis using Cons.prems st l by simp
  next
    case (Inr x)
    then have "reduce_from (getTargetPropToSet hs pp fk) (Suc i) ks x h1 = (r, ht)"
      using Cons.prems st by simp
    then show ?thesis using Cons.IH l by fastforce
  qed
qed

text \<open>
  C10 (amended).  The write traversal never overwrites an existing truthy value: where the value
  read at a step is truthy the callback returns it and leaves the store as it is.  The
  traversal changes a slot only where it attached a new container, that is at a container and
  key where it read a falsy value.  After a write that logged nothing, a slot, whatever it
  held, differs from before only if the traversal attached a container there or if it is the
  slot that the final key names in the container the traversal ended in: the slot of that key,
  the slot of the appended element for the empty final key, or, when the final key is
  \<^verbatim>\<open>length\<close> and that container an array, any slot of the array.  The prototype of an
  object changes only where a container was attached or where the final key resolved to the
  \<^verbatim>\<open>__proto__\<close> accessor.
\<close>

theorem write_changes_named_slots:
  assumes g: "generatePathPieces path separator = Inr pieces"
    and fk: "finalKey = (if pieces = [] then Undefined else Str (last pieces))"
    and tr: "reduce (getTargetPropToSet hs (butlast pieces) finalKey) (butlast pieces) model h
               = (Inr target, ht)"
    and s: "setValue hs path v model separator h = (r, hw, [])"
  shows "(\<forall>hh ob key i cur. get_prop hs hh ob key = Inr cur \<and> truthy cur
            \<longrightarrow> getTargetPropToSet hs (butlast pieces) finalKey hh ob key i = (Inr cur, hh))
       \<and> (stored ht a k \<noteq> stored h a k
            \<longrightarrow> (Ref a, k) \<in> set (attached hs (butlast pieces) finalKey 0 (butlast pieces) model h))
       \<and> (stored hw a k \<noteq> stored h a k
            \<longrightarrow> (Ref a, k) \<in> set (attached hs (butlast pieces) finalKey 0 (butlast pieces) model h)
                \<or> (target = Ref a \<and> final_slot ht a finalKey k))
       \<and> (a < length h \<and> proto_of (hw ! a) \<noteq> proto_of (h ! a)
            \<longrightarrow> (\<exists>key. (Ref a, key)
                    \<in> set (attached hs (butlast pieces) finalKey 0 (butlast pieces) model h))
                \<or> (target = Ref a
                    \<and> lookup hs ht target (to_key finalKey) = Some ProtoAccessor))"
proof -
  let ?att = "attached hs (butlast pieces) finalKey 0 (butlast pieces) model h"
  let ?w = "if finalKey = Str '''' then push hs ht target v
              else set_prop hs ht target (to_key finalKey) v"
  have A: "\<forall>hh ob key i cur. get_prop hs hh ob key = Inr cur \<and> truthy cur
            \<longrightarrow> getTargetPropToSet hs (butlast pieces) finalKey hh ob key i = (Inr cur, hh)"
    by (simp add: getTargetPropToSet_def)
  have B: "(Ref a, k) \<in> set ?att" if "stored ht a k \<noteq> stored h a k"
    using traversal_frame [OF tr [unfolded reduce_def] that] .
  have C: "(Ref a, k) \<in> set ?att \<or> (target = Ref a \<and> final_slot ht a finalKey k)"
    if c: "stored hw a k \<noteq> stored h a k"
  proof (cases "stored ht a k = stored h a k")
    case False
    then show ?thesis using B by simp
  next
    case True
    then have c': "stored hw a k \<noteq> stored ht a k" using c by simp
    have pm: "truthy path \<and> truthy model"
      using s c by (auto simp: setValue_def split: if_splits)
    from final_write [OF g fk tr s] pm obtain x where w: "?w = (Inr x, hw)"
      by blast
    have "target = Ref a \<and> final_slot ht a finalKey k"
    proof (cases "finalKey = Str ''''")
      case True
      then have "push hs ht target v = (Inr x, hw)" using w by simp
      then show ?thesis
        using push_changes [of hs ht target v x a k] c' True by (simp add: final_slot_def)
    next
      case False
      then have "set_prop hs ht target (to_key finalKey) v = (Inr x, hw)" using w by simp
      then show ?thesis
        using set_prop_changes [of hs ht target "to_key finalKey" v a k] c' False
        by (simp add: final_slot_def)
    qed
    then show ?thesis by simp
  qed
  have D: "(\<exists>key. (Ref a, key) \<in> set ?att)
             \<or> (target = Ref a \<and> lookup hs ht target (to_key finalKey) = Some ProtoAccessor)"
    if a: "a < length h" and c: "proto_of (hw ! a) \<noteq> proto_of (h ! a)"
  proof (cases "proto_of (ht ! a) = proto_of (h ! a)")
    case False
    then show ?thesis using traversal_proto [OF tr [unfolded reduce_def] a] by simp
  next
    case True
    then have c': "proto_of (hw ! a) \<noteq> proto_of (ht ! a)" using c by simp
    have pm: "truthy path \<and> truthy model"
      using s c by (auto simp: setValue_def split: if_splits)
    from final_write [OF g fk tr s] pm obtain x where w: "?w = (Inr x, hw)"
      by blast
    have lt: "length ht = length hw"
      using w by (cases "finalKey = Str ''''")
        (auto simp: set_prop_length dest: push_success [of hs ht target v] simp: prod_eq_iff)
    have at: "a < length ht"
      using a traversal_length [OF tr [unfolded reduce_def]] by simp
    have c'': "proto_of (deref hw a) \<noteq> proto_of (deref ht a)"
      using c' at lt by (simp add: deref_def)
    have "target = Ref a \<and> lookup hs ht target (to_key finalKey) = Some ProtoAccessor"
    proof (cases "finalKey = Str ''''")
      case True
      then have "push hs ht target v = (Inr x, hw)" using w by simp
      then show ?thesis using push_proto [of hs ht target v x a] c'' by simp
    next
      case False
      then have "set_prop hs ht target (to_key finalKey) v = (Inr x, hw)" using w by simp
      then have "snd (set_prop hs ht target (to_key finalKey) v) = hw" by simp
      then show ?thesis
        using set_prop_proto [of hs ht target "to_key finalKey" v a] c'' by blast
    qed
    then show ?thesis by blast
  qed
  show ?thesis using A B C D by blast
qed

theorem write_changes_named_slots_witness:
  "setValue engine (Str ''user.age'') (Num 35) (Ref 12) ''.''
      (realm @ [Object Obj [(''user'', Data (Ref 13) True), (''count'', Data (Num 0) True)] (Ref 0),
                Object Obj [(''name'', Data (Str ''John Doe'') True)] (Ref 0)])
     = (Inr Undefined,
        realm @ [Object Obj [(''user'', Data (Ref 13) True), (''count'', Data (Num 0) True)] (Ref 0),
                 Object Obj [(''name'', Data (Str ''John Doe'') True),
                             (''age'', Data (Num 35) True)] (Ref 0)], [])
   \<and> reduce (getTargetPropToSet engine [''user''] (Str ''age'')) [''user''] (Ref 12)
        (realm @ [Object Obj [(''user'', Data (Ref 13) True), (''count'', Data (Num 0) True)] (Ref 0),
                  Object Obj [(''name'', Data (Str ''John Doe'') True)] (Ref 0)])
     = (Inr (Ref 13),
        realm @ [Object Obj [(''user'', Data (Ref 13) True), (''count'', Data (Num 0) True)] (Ref 0),
                 Object Obj [(''name'', Data (Str ''John Doe'') True)] (Ref 0)])
   \<and> attached engine [''user''] (Str ''age'') 0 [''user''] (Ref 12)
        (realm @ [Object Obj [(''user'', Data (Ref 13) True), (''count'', Data (Num 0) True)] (Ref 0),
                  Object Obj [(''name'', Data (Str ''John Doe'') True)] (Ref 0)]) = []
   \<and> stored (realm @ [Object Obj [(''user'', Data (Ref 13) True), (''count'', Data (Num 0) True)] (Ref 0),
                 Object Obj [(''name'', Data (Str ''John Doe'') True),
                             (''age'', Data (Num 35) True)] (Ref 0)]) 13 ''age'' = Num 35
   \<and> stored (realm @ [Object Obj [(''user'', Data (Ref 13) True), (''count'', Data (Num 0) True)] (Ref 0),
                 Object Obj [(''name'', Data (Str ''John Doe'') True)] (Ref 0)]) 13 ''age'' = Undefined
   \<and> final_slot
        (realm @ [Object Obj [(''user'', Data (Ref 13) True), (''count'', Data (Num 0) True)] (Ref 0),
                  Object Obj [(''name'', Data (Str ''John Doe'') True)] (Ref 0)])
        13 (Str ''age'') ''age''"
  using write_changes_named_slots [where hs = engine and path = "Str ''user.age''"
      and separator = "''.''" and pieces = "[''user'', ''age'']" and finalKey = "Str ''age''"
      and model = "Ref 12" and v = "Num 35" and r = "Inr Undefined" and target = "Ref 13"
      and a = 13 and k = "''age''"
      and h = "realm @ [Object Obj [(''user'', Data (Ref 13) True), (''count'', Data (Num 0) True)] (Ref 0),
                Object Obj [(''name'', Data (Str ''John Doe'') True)] (Ref 0)]"
      and ht = "realm @ [Object Obj [(''user'', Data (Ref 13) True), (''count'', Data (Num 0) True)] (Ref 0),
                Object Obj [(''name'', Data (Str ''John Doe'') True)] (Ref 0)]"
      and hw = "realm @ [Object Obj [(''user'', Data (Ref 13) True), (''count'', Data (Num 0) True)] (Ref 0),
                 Object Obj [(''name'', Data (Str ''John Doe'') True),
                             (''age'', Data (Num 35) True)] (Ref 0)]"]
  by (simp add: ev stored_def final_slot_def)

text \<open>
  C10 as stated fails for the final key \<^verbatim>\<open>length\<close> on an array:
  \<^verbatim>\<open>setValue('list.length', 1, {list: [7, 8, 9]})\<close> succeeds and truncates the array, so the
  element at index 1, which is neither the location named by the final key nor a formerly
  missing intermediate, is gone.
\<close>

theorem length_write_counterexample:
  "setValue engine (Str ''list.length'') (Num 1) (Ref 12) default_separator
      (realm @ [Object Obj [(''list'', Data (Ref 13) True)] (Ref 0),
                Object (Arr [Num 7, Num 8, Num 9]) [] (Ref 4)])
     = (Inr Undefined,
        realm @ [Object Obj [(''list'', Data (Ref 13) True)] (Ref 0),
                 Object (Arr [Num 7]) [] (Ref 4)], [])
   \<and> stored (realm @ [Object Obj [(''list'', Data (Ref 13) True)] (Ref 0),
                      Object (Arr [Num 7, Num 8, Num 9]) [] (Ref 4)]) 13 ''1'' = Num 8
   \<and> stored (realm @ [Object Obj [(''list'', Data (Ref 13) True)] (Ref 0),
                      Object (Arr [Num 7]) [] (Ref 4)]) 13 ''1'' = Undefined
   \<and> ''1'' \<noteq> ''length''"
  by (simp add: ev stored_def)

section \<open>What a write stores\<close>

text \<open>
  C3 (amended).  For every path, model and separator, \<^verbatim>\<open>setValue\<close> hands its value argument
  unchanged to the final assignment or append, falsy or not.  When the write logs nothing and
  the final key names an ordinary slot of the target (not the \<^verbatim>\<open>length\<close> of an array, not
  the inherited \<^verbatim>\<open>__proto__\<close> accessor), the slot holds the value as given and the key
  reads as that value; with the empty final key the value itself is appended.  The falsy
  values are replaced by \<^verbatim>\<open>null\<close> by the caller: \<^verbatim>\<open>setModelValue\<close> of the directive
  passes \<^verbatim>\<open>newValue || null\<close>, so a write made through the directive with a falsy new value
  stores \<^verbatim>\<open>null\<close>.
\<close>

theorem setValue_stores_value_as_given:
  assumes g: "generatePathPieces path separator = Inr pieces"
    and fk: "finalKey = (if pieces = [] then Undefined else Str (last pieces))"
    and tr: "reduce (getTargetPropToSet hs (butlast pieces) finalKey) (butlast pieces) model h
               = (Inr target, ht)"
    and vt: "valid_ref ht target" and p: "truthy path" and m: "truthy model"
    and o: "finalKey = Str '''' \<or> ordinary_key hs ht target (to_key finalKey)"
  shows "(setValue hs path v model separator h = (r, hw, [])
            \<longrightarrow> kept_as_given hs ht hw target finalKey v)
       \<and> (\<not> truthy newValue \<and> separator = default_separator
             \<and> setModelValue hs \<lparr>modelPath = path, rfForm = Some \<lparr>rfModelData = model\<rparr>\<rparr>
                  newValue h = (r, hw, [])
            \<longrightarrow> kept_as_given hs ht hw target finalKey Null)"
proof -
  have stores: "kept_as_given hs ht hw target finalKey w"
    if s: "setValue hs path w model separator h = (r, hw, [])" for w
  proof -
    from final_write [OF g fk tr s p m] obtain x where
      w: "(if finalKey = Str '''' then push hs ht target w
              else set_prop hs ht target (to_key finalKey) w) = (Inr x, hw)"
      by blast
    show ?thesis
    proof (cases "finalKey = Str ''''")
      case True
      then have "push hs ht target w = (Inr x, hw)" using w by simp
      then show ?thesis
        using push_kept [of hs ht target w x] True by (auto simp: kept_as_given_def)
    next
      case False
      then have "set_prop hs ht target (to_key finalKey) w = (Inr x, hw)" using w by simp
      then show ?thesis
        using set_prop_kept [of hs ht target "to_key finalKey" w x] False o vt
        by (auto simp: kept_as_given_def)
    qed
  qed
  show ?thesis
    using stores [of v] stores [of Null] by (simp add: setModelValue_def)
qed

theorem setValue_stores_value_as_given_witness:
  "setValue engine (Str ''a'') (Bool False) (Ref 12) default_separator
      (realm @ [Object Obj [(''a'', Data (Num 1) True)] (Ref 0)])
     = (Inr Undefined, realm @ [Object Obj [(''a'', Data (Bool False) True)] (Ref 0)], [])
   \<and> kept_as_given engine (realm @ [Object Obj [(''a'', Data (Num 1) True)] (Ref 0)])
        (realm @ [Object Obj [(''a'', Data (Bool False) True)] (Ref 0)]) (Ref 12) (Str ''a'')
        (Bool False)
   \<and> \<not> truthy (Num 0)
   \<and> setModelValue engine \<lparr>modelPath = Str ''a'', rfForm = Some \<lparr>rfModelData = Ref 12\<rparr>\<rparr>
        (Num 0) (realm @ [Object Obj [(''a'', Data (Num 1) True)] (Ref 0)])
     = (Inr Undefined, realm @ [Object Obj [(''a'', Data Null True)] (Ref 0)], [])
   \<and> kept_as_given engine (realm @ [Object Obj [(''a'', Data (Num 1) True)] (Ref 0)])
        (realm @ [Object Obj [(''a'', Data Null True)] (Ref 0)]) (Ref 12) (Str ''a'') Null"
proof -
  let ?h = "realm @ [Object Obj [(''a'', Data (Num 1) True)] (Ref 0)]"
  let ?hf = "realm @ [Object Obj [(''a'', Data (Bool False) True)] (Ref 0)]"
  let ?hn = "realm @ [Object Obj [(''a'', Data Null True)] (Ref 0)]"
  let ?d = "\<lparr>modelPath = Str ''a'', rfForm = Some \<lparr>rfModelData = Ref 12\<rparr>\<rparr>"
  have g: "generatePathPieces (Str ''a'') default_separator = Inr [''a'']"
    by (simp add: default_separator_def js_split_def js_replace_def)
  have fk: "Str ''a'' = (if [''a''] = [] then Undefined else Str (last [''a'']))"
    by simp
  have tr: "reduce (getTargetPropToSet engine (butlast [''a'']) (Str ''a'')) (butlast [''a''])
              (Ref 12) ?h = (Inr (Ref 12), ?h)"
    by (simp add: reduce_def)
  have vt: "valid_ref ?h (Ref 12)" by (simp add: valid_ref_def realm_def)
  have o: "Str ''a'' = Str '''' \<or> ordinary_key engine ?h (Ref 12) (to_key (Str ''a''))"
    by (simp add: ordinary_key_def deref_def realm_def)
  have s1: "setValue engine (Str ''a'') (Bool False) (Ref 12) default_separator ?h
              = (Inr Undefined, ?hf, [])"
    by (simp add: ev)
  have s2: "setModelValue engine ?d (Num 0) ?h = (Inr Undefined, ?hn, [])"
    by (simp add: setModelValue_def ev)
  have k1: "kept_as_given engine ?h ?hf (Ref 12) (Str ''a'') (Bool False)"
    using setValue_stores_value_as_given [OF g fk tr vt _ _ o, of "Bool False" "Inr Undefined" ?hf]
      s1 by simp
  have k2: "kept_as_given engine ?h ?hn (Ref 12) (Str ''a'') Null"
    using setValue_stores_value_as_given [OF g fk tr vt _ _ o, of _ "Inr Undefined" ?hn "Num 0"]
      s2 by simp
  show ?thesis using s1 s2 k1 k2 by simp
qed

text \<open>
  C3 as stated fails: \<^verbatim>\<open>setValue('a', 0, {})\<close> leaves \<^verbatim>\<open>{a: 0}\<close> and
  \<^verbatim>\<open>setValue('a', false, {})\<close> leaves \<^verbatim>\<open>{a: false}\<close>; neither stores \<^verbatim>\<open>null\<close>.
\<close>

theorem falsy_value_is_stored_counterexample:
  "\<not> truthy (Num 0) \<and> \<not> truthy (Bool False)
   \<and> setValue engine (Str ''a'') (Num 0) (Ref 12) default_separator
        (realm @ [Object Obj [] (Ref 0)])
       = (Inr Undefined, realm @ [Object Obj [(''a'', Data (Num 0) True)] (Ref 0)], [])
   \<and> stored (realm @ [Object Obj [(''a'', Data (Num 0) True)] (Ref 0)]) 12 ''a'' = Num 0
   \<and> Num 0 \<noteq> Null
   \<and> setValue engine (Str ''a'') (Bool False) (Ref 12) default_separator
        (realm @ [Object Obj [] (Ref 0)])
       = (Inr Undefined, realm @ [Object Obj [(''a'', Data (Bool False) True)] (Ref 0)], [])
   \<and> stored (realm @ [Object Obj [(''a'', Data (Bool False) True)] (Ref 0)]) 12 ''a'' = Bool False
   \<and> Bool False \<noteq> Null"
  by (simp add: ev stored_def)

end
